theory Spec2Isabelle
  imports Main "HOL-Library.Char_ord" "HOL-Library.List_Lexorder" "HOL-Library.Multiset"
begin

section \<open>Bindings, tags and options\<close>

text \<open>
  The two registries of the repository (the life cycle observer registry of
  \<^verbatim>\<open>@loopback/core\<close> and the middleware registry of \<^verbatim>\<open>@loopback/rest\<close>) read
  bindings of a context, classify them by their tags, partition them into named groups
  (phases), sort the groups and then either notify the observers or mount the middleware.

  Strings are \<^typ>\<open>string\<close>; \<open><\<close> on strings is the lexicographic order on character
  codes, which is what JavaScript's \<open><\<close> on strings computes. Tag values are strings: a tag
  value is falsy exactly when it is missing or the empty string.
\<close>

text \<open>
  Modelled from the spec: the binding type and scope markers of the binding container,
  whose declarations are not among the source files. The registries only ask whether a
  binding is a constant or a singleton.
\<close>

datatype BindingType = CONSTANT | OTHER_TYPE

datatype BindingScope = SINGLETON | OTHER_SCOPE

type_synonym TagMap = "string \<rightharpoonup> string"

text \<open>
  Modelled from the spec: a component handle (a binding) with its unique key, its
  registration markers and its tag map; the class is declared by the binding container.
\<close>

record Binding =
  key :: string
  btype :: BindingType
  scope :: BindingScope
  tagMap :: TagMap

text \<open>
  The tag names \<^verbatim>\<open>CoreTags.LIFE_CYCLE_OBSERVER\<close> and
  \<^verbatim>\<open>CoreTags.LIFE_CYCLE_OBSERVER_GROUP\<close> are declared in a file that is not among
  the sources, so they are parameters of every function that reads them.
\<close>

record CoreTags =
  LIFE_CYCLE_OBSERVER :: string
  LIFE_CYCLE_OBSERVER_GROUP :: string

record LifeCycleObserverGroup =
  group :: string
  bindings :: "Binding list"

record LifeCycleObserverOptions =
  groupsByOrder :: "string list"
  parallel :: "bool option"

text \<open>
  A life cycle method, once invoked, settles: it resolves or it rejects with an error.
  An observer maps an event name to its method, \<open>None\<close> when \<^verbatim>\<open>observer[event]\<close>
  is not a function.
\<close>

datatype 'e outcome = Resolved | Rejected 'e

type_synonym 'e LifeCycleObserver = "string \<Rightarrow> 'e outcome option"

text \<open>
  Modelled from the spec: the context, as far as the registry uses it. \<open>registry\<close> lists
  the bindings in registration order (what \<^verbatim>\<open>ctx.find\<close> enumerates) and \<open>get\<close>
  resolves a key to the live observer or fails.
\<close>

record 'e Context =
  registry :: "Binding list"
  get :: "string \<Rightarrow> 'e + 'e LifeCycleObserver"

record 'e LifeCycleObserverRegistry =
  ctx :: "'e Context"
  options :: LifeCycleObserverOptions

record MiddlewarePhase =
  phase :: string
  phase_bindings :: "Binding list"

record MiddlewareOptions =
  phasesByOrder :: "string list"
  parallel_mw :: "bool option"

text \<open>
  Modelled from the spec: the view of the middleware bindings. \<open>view_bindings\<close> are the
  bindings in registration order and \<open>view_values\<close> is what \<^verbatim>\<open>values()\<close> settles
  to: the resolved handlers, one per binding, or an error.
\<close>

record ('e, 'h) ContextView =
  view_bindings :: "Binding list"
  view_values :: "'e + 'h list"

record ('e, 'h) MiddlewareRegistry =
  middlewareView :: "('e, 'h) ContextView"
  options_mw :: MiddlewareOptions

text \<open>
  A router as data: what was mounted, in mounting order. A mount has the path it is
  scoped to, if any, and the handler (\<open>None\<close> for \<^verbatim>\<open>undefined\<close>). A phase router is
  the list of its mounts and the root router the list of its phase routers.
\<close>

record 'h Mount =
  path :: "string option"
  handler :: "'h option"

type_synonym 'h PhaseRouter = "'h Mount list"

type_synonym 'h RootRouter = "'h PhaseRouter list"

section \<open>JavaScript built-ins used by the source\<close>

text \<open>\<^verbatim>\<open>v || ''\<close> for a tag value or a found name: the value when truthy, else the empty string.\<close>

definition or_empty :: "string option \<Rightarrow> string" where
  "or_empty v = (case v of None \<Rightarrow> '''' | Some s \<Rightarrow> (if s \<noteq> '''' then s else ''''))"

text \<open>\<^verbatim>\<open>!v\<close> for a tag value.\<close>

definition falsy :: "string option \<Rightarrow> bool" where
  "falsy v = (case v of None \<Rightarrow> True | Some s \<Rightarrow> s = '''')"

text \<open>\<^verbatim>\<open>Array.prototype.indexOf\<close>: the first position of the element, \<open>-1\<close> when absent.\<close>

fun indexOf :: "'a list \<Rightarrow> 'a \<Rightarrow> int" where
  "indexOf [] x = -1"
| "indexOf (y # ys) x =
     (if y = x then 0 else (let i = indexOf ys x in if i = -1 then -1 else i + 1))"

text \<open>
  \<^verbatim>\<open>Array.prototype.sort\<close> with a comparator, as a stable insertion sort: an element
  goes before the first element it does not compare greater than.
\<close>

fun insert_by :: "('a \<Rightarrow> 'a \<Rightarrow> int) \<Rightarrow> 'a \<Rightarrow> 'a list \<Rightarrow> 'a list" where
  "insert_by cmp x [] = [x]"
| "insert_by cmp x (y # ys) =
     (if cmp x y \<le> 0 then x # y # ys else y # insert_by cmp x ys)"

definition js_sort :: "('a \<Rightarrow> 'a \<Rightarrow> int) \<Rightarrow> 'a list \<Rightarrow> 'a list" where
  "js_sort cmp xs = foldr (insert_by cmp) xs []"

text \<open>
  A \<^verbatim>\<open>Map\<close> from group names to arrays of bindings is an association list in
  insertion order. One round of the grouping loop: look the name up; when it is missing,
  set a new empty array at the end of the map; push the binding on the array.
\<close>

definition push_to_group ::
  "string \<Rightarrow> Binding \<Rightarrow> (string \<times> Binding list) list \<Rightarrow> (string \<times> Binding list) list" where
  "push_to_group g b m =
     (case map_of m g of
        None \<Rightarrow> m @ [(g, [b])]
      | Some bindingsInGroup \<Rightarrow> map (\<lambda>(k, v). if k = g then (k, v @ [b]) else (k, v)) m)"

text \<open>
  \<^verbatim>\<open>Promise.all\<close> over the settled results of the members: fulfilled when no member
  rejected, else rejected with the rejection that came first in time. Which one that is
  depends on the timing of the members, so it is a parameter \<open>first\<close> that picks among
  the rejections (given in member order).
\<close>

definition promise_all :: "('e list \<Rightarrow> 'e) \<Rightarrow> ('e + unit) list \<Rightarrow> 'e + unit" where
  "promise_all first results =
     (case [e. Inl e \<leftarrow> results] of [] \<Rightarrow> Inr () | e # es \<Rightarrow> Inl (first (e # es)))"

text \<open>Reading \<^verbatim>\<open>array[index]\<close>: \<^verbatim>\<open>undefined\<close> outside the array.\<close>

definition js_nth :: "'a list \<Rightarrow> int \<Rightarrow> 'a option" where
  "js_nth xs i = (if 0 \<le> i \<and> i < int (length xs) then Some (xs ! nat i) else None)"

section \<open>The life cycle observer registry\<close>

definition default_LifeCycleObserverOptions :: LifeCycleObserverOptions where
  "default_LifeCycleObserverOptions = \<lparr>groupsByOrder = [''server''], parallel = Some True\<rparr>"

text \<open>The constructor: the options are injected, or default when nothing is bound.\<close>

definition new_LifeCycleObserverRegistry ::
  "'e Context \<Rightarrow> LifeCycleObserverOptions option \<Rightarrow> 'e LifeCycleObserverRegistry" where
  "new_LifeCycleObserverRegistry c injected =
     \<lparr>ctx = c,
      options = (case injected of None \<Rightarrow> default_LifeCycleObserverOptions | Some opts \<Rightarrow> opts)\<rparr>"

definition setGroupsByOrder ::
  "'e LifeCycleObserverRegistry \<Rightarrow> string list option \<Rightarrow> 'e LifeCycleObserverRegistry" where
  "setGroupsByOrder this groups =
     this\<lparr>options := (options this)\<lparr>groupsByOrder :=
       (case groups of None \<Rightarrow> [''server''] | Some gs \<Rightarrow> gs)\<rparr>\<rparr>"

definition findObserverBindings :: "CoreTags \<Rightarrow> 'e LifeCycleObserverRegistry \<Rightarrow> Binding list" where
  "findObserverBindings ct this =
     filter (\<lambda>binding.
        (btype binding = CONSTANT \<or> scope binding = SINGLETON) \<and>
        tagMap binding (LIFE_CYCLE_OBSERVER ct) \<noteq> None)
      (registry (ctx this))"

definition getObserverGroup :: "CoreTags \<Rightarrow> 'e LifeCycleObserverRegistry \<Rightarrow> Binding \<Rightarrow> string" where
  "getObserverGroup ct this binding =
     (let group0 = tagMap binding (LIFE_CYCLE_OBSERVER_GROUP ct);
          group1 = (if falsy group0
                    then List.find (\<lambda>g. tagMap binding g = Some g) (groupsByOrder (options this))
                    else group0)
      in or_empty group1)"

definition sortObserverBindingsByGroup ::
  "CoreTags \<Rightarrow> 'e LifeCycleObserverRegistry \<Rightarrow> Binding list \<Rightarrow> LifeCycleObserverGroup list" where
  "sortObserverBindingsByGroup ct this bs =
     (let groupMap = fold (\<lambda>binding m. push_to_group (getObserverGroup ct this binding) binding m) bs [];
          groups = map (\<lambda>entry. \<lparr>group = fst entry, bindings = snd entry\<rparr>) groupMap
      in js_sort (\<lambda>g1 g2.
           let i1 = indexOf (groupsByOrder (options this)) (group g1);
               i2 = indexOf (groupsByOrder (options this)) (group g2)
           in if i1 \<noteq> -1 \<or> i2 \<noteq> -1 then i1 - i2
              else if group g1 < group g2 then -1 else if group g1 > group g2 then 1 else 0)
         groups)"

definition getObserverGroupsByOrder ::
  "CoreTags \<Rightarrow> 'e LifeCycleObserverRegistry \<Rightarrow> LifeCycleObserverGroup list" where
  "getObserverGroupsByOrder ct this = sortObserverBindingsByGroup ct this (findObserverBindings ct this)"

definition invokeObserver :: "'e LifeCycleObserver \<Rightarrow> string \<Rightarrow> 'e + unit" where
  "invokeObserver observer event =
     (case observer event of
        None \<Rightarrow> Inr ()
      | Some Resolved \<Rightarrow> Inr ()
      | Some (Rejected e) \<Rightarrow> Inl e)"

text \<open>The closure \<^verbatim>\<open>notifyObserver\<close>: resolve the binding's key, then invoke the observer.\<close>

definition notifyObserver :: "'e LifeCycleObserverRegistry \<Rightarrow> Binding \<Rightarrow> string \<Rightarrow> 'e + unit" where
  "notifyObserver this binding event =
     (case get (ctx this) (key binding) of
        Inl e \<Rightarrow> Inl e
      | Inr observer \<Rightarrow> invokeObserver observer event)"

text \<open>
  The loop of \<^verbatim>\<open>notifyObserverGroup\<close> over the bindings of the group. It carries the
  array \<open>notifiers\<close> of the started members and the keys of the members that
  \<^verbatim>\<open>notifyObserver\<close> was called for so far. In parallel mode every member is started;
  otherwise a member is awaited before the next one, and a rejection leaves the loop.
\<close>

fun notifyMembers ::
  "'e LifeCycleObserverRegistry \<Rightarrow> string \<Rightarrow> Binding list \<Rightarrow> ('e + unit) list \<Rightarrow> string list \<Rightarrow>
     ('e + ('e + unit) list) \<times> string list" where
  "notifyMembers this event [] notifiers called = (Inr notifiers, called)"
| "notifyMembers this event (b # bs) notifiers called =
     (if parallel (options this) = Some True
      then notifyMembers this event bs (notifiers @ [notifyObserver this b event]) (called @ [key b])
      else (case notifyObserver this b event of
              Inl e \<Rightarrow> (Inl e, called @ [key b])
            | Inr u \<Rightarrow> notifyMembers this event bs notifiers (called @ [key b])))"

text \<open>
  The result is what the returned promise settles to, with the keys of the members that
  were notified.
\<close>

definition notifyObserverGroup ::
  "('e list \<Rightarrow> 'e) \<Rightarrow> 'e LifeCycleObserverRegistry \<Rightarrow> LifeCycleObserverGroup \<Rightarrow> string \<Rightarrow>
     ('e + unit) \<times> string list" where
  "notifyObserverGroup first this g event =
     (case notifyMembers this event (bindings g) [] [] of
        (Inl e, called) \<Rightarrow> (Inl e, called)
      | (Inr notifiers, called) \<Rightarrow>
          (if parallel (options this) = Some True
           then (promise_all first notifiers, called)
           else (Inr (), called)))"

text \<open>
  A transition leaves a trace: one entry for every call of \<^verbatim>\<open>notifyObserverGroup\<close>,
  with the event, the name of the group and the keys of the members notified.
\<close>

type_synonym trace = "(string \<times> string \<times> string list) list"

text \<open>The inner loop of \<^verbatim>\<open>notifyGroups\<close>: one event, every group in turn.\<close>

fun notifyEachGroup ::
  "('e list \<Rightarrow> 'e) \<Rightarrow> 'e LifeCycleObserverRegistry \<Rightarrow> string \<Rightarrow> LifeCycleObserverGroup list \<Rightarrow>
     ('e + unit) \<times> trace" where
  "notifyEachGroup first this event [] = (Inr (), [])"
| "notifyEachGroup first this event (g # gs) =
     (case notifyObserverGroup first this g event of
        (Inl e, called) \<Rightarrow> (Inl e, [(event, group g, called)])
      | (Inr u, called) \<Rightarrow>
          (case notifyEachGroup first this event gs of
             (r, t) \<Rightarrow> (r, (event, group g, called) # t)))"

text \<open>The outer loop of \<^verbatim>\<open>notifyGroups\<close>: every event in turn.\<close>

fun notifyGroups ::
  "('e list \<Rightarrow> 'e) \<Rightarrow> 'e LifeCycleObserverRegistry \<Rightarrow> string list \<Rightarrow> LifeCycleObserverGroup list \<Rightarrow>
     ('e + unit) \<times> trace" where
  "notifyGroups first this [] groups = (Inr (), [])"
| "notifyGroups first this (event # events) groups =
     (case notifyEachGroup first this event groups of
        (Inl e, t) \<Rightarrow> (Inl e, t)
      | (Inr u, t) \<Rightarrow>
          (case notifyGroups first this events groups of
             (r, t') \<Rightarrow> (r, t @ t')))"

definition start ::
  "('e list \<Rightarrow> 'e) \<Rightarrow> CoreTags \<Rightarrow> 'e LifeCycleObserverRegistry \<Rightarrow> ('e + unit) \<times> trace" where
  "start first ct this =
     (let groups = getObserverGroupsByOrder ct this
      in notifyGroups first this [''preStart'', ''start'', ''postStart''] groups)"

definition stop ::
  "('e list \<Rightarrow> 'e) \<Rightarrow> CoreTags \<Rightarrow> 'e LifeCycleObserverRegistry \<Rightarrow> ('e + unit) \<times> trace" where
  "stop first ct this =
     (let groups = rev (getObserverGroupsByOrder ct this)
      in notifyGroups first this [''preStop'', ''stop'', ''postStop''] groups)"

section \<open>The middleware registry\<close>

definition default_MiddlewareOptions :: MiddlewareOptions where
  "default_MiddlewareOptions = \<lparr>phasesByOrder = [], parallel_mw = Some False\<rparr>"

definition new_MiddlewareRegistry ::
  "('e, 'h) ContextView \<Rightarrow> MiddlewareOptions option \<Rightarrow> ('e, 'h) MiddlewareRegistry" where
  "new_MiddlewareRegistry view injected =
     \<lparr>middlewareView = view,
      options_mw = (case injected of None \<Rightarrow> default_MiddlewareOptions | Some opts \<Rightarrow> opts)\<rparr>"

definition setPhasesByOrder ::
  "('e, 'h) MiddlewareRegistry \<Rightarrow> string list option \<Rightarrow> ('e, 'h) MiddlewareRegistry" where
  "setPhasesByOrder this phases =
     this\<lparr>options_mw := (options_mw this)\<lparr>phasesByOrder :=
       (case phases of None \<Rightarrow> [] | Some ps \<Rightarrow> ps)\<rparr>\<rparr>"

definition getMiddlewarePhase :: "Binding \<Rightarrow> string" where
  "getMiddlewarePhase binding = or_empty (tagMap binding ''phase'')"

definition sortMiddlewareBindingsByPhase ::
  "('e, 'h) MiddlewareRegistry \<Rightarrow> Binding list \<Rightarrow> MiddlewarePhase list" where
  "sortMiddlewareBindingsByPhase this bs =
     (let phaseMap = fold (\<lambda>binding m. push_to_group (getMiddlewarePhase binding) binding m) bs [];
          phases = map (\<lambda>(ph, bindingsInPhase). \<lparr>phase = ph, phase_bindings = bindingsInPhase\<rparr>) phaseMap
      in js_sort (\<lambda>p1 p2.
           let i1 = indexOf (phasesByOrder (options_mw this)) (phase p1);
               i2 = indexOf (phasesByOrder (options_mw this)) (phase p2)
           in if i1 \<noteq> -1 \<or> i2 \<noteq> -1 then i1 - i2
              else if phase p1 < phase p2 then -1 else if phase p1 > phase p2 then 1 else 0)
         phases)"

definition getMiddlewarePhasesByOrder :: "('e, 'h) MiddlewareRegistry \<Rightarrow> MiddlewarePhase list" where
  "getMiddlewarePhasesByOrder this =
     sortMiddlewareBindingsByPhase this (view_bindings (middlewareView this))"

text \<open>One round of the inner loop of \<^verbatim>\<open>createExpressRouter\<close>: what a binding mounts.\<close>

definition mount_binding :: "Binding list \<Rightarrow> 'h list \<Rightarrow> Binding \<Rightarrow> 'h Mount" where
  "mount_binding bs middleware binding =
     (let index = indexOf bs binding
      in (if \<not> falsy (tagMap binding ''path'')
          then \<lparr>path = tagMap binding ''path'', handler = js_nth middleware index\<rparr>
          else \<lparr>path = None, handler = js_nth middleware index\<rparr>))"

text \<open>
  \<^verbatim>\<open>createExpressRouter\<close> reads the registry and assigns to none of its fields; the
  registry is returned next to the result, so that a second call can be stated. The
  promise rejects when \<^verbatim>\<open>values()\<close> does.
\<close>

definition createExpressRouter ::
  "('e, 'h) MiddlewareRegistry \<Rightarrow> ('e + 'h RootRouter) \<times> ('e, 'h) MiddlewareRegistry" where
  "createExpressRouter this =
     (let phases = getMiddlewarePhasesByOrder this
      in (case view_values (middlewareView this) of
            Inl e \<Rightarrow> (Inl e, this)
          | Inr middleware \<Rightarrow>
              (let bs = view_bindings (middlewareView this)
               in (Inr (map (\<lambda>p. map (mount_binding bs middleware) (phase_bindings p)) phases),
                   this))))"

section \<open>Notification with a clock\<close>

text \<open>
  Time. A promise settles at a time (a number of ticks) with a result. How long a
  member takes from the call of \<^verbatim>\<open>notifyObserver\<close> until its promise settles is
  decided by the container and the observer, so it is data: \<open>takes b event\<close>.

  \<^verbatim>\<open>Promise.all\<close> over promises with their settle times, awaited at the time
  \<open>now\<close>: when none rejects it is fulfilled once the last one is; when one rejects it
  is rejected at the time of the earliest rejection, with that error (of two rejections
  at the same tick the one earlier in the array).
\<close>

fun earliest :: "nat \<times> 'e \<Rightarrow> (nat \<times> 'e) list \<Rightarrow> nat \<times> 'e" where
  "earliest r [] = r"
| "earliest r (x # xs) = earliest (if fst x < fst r then x else r) xs"

definition promise_all_at :: "nat \<Rightarrow> (nat \<times> ('e + unit)) list \<Rightarrow> nat \<times> ('e + unit)" where
  "promise_all_at now settled =
     (case [(t, e). (t, Inl e) \<leftarrow> settled] of
        [] \<Rightarrow> (foldr max (map fst settled) now, Inr ())
      | r # rs \<Rightarrow> (fst (earliest r rs), Inl (snd (earliest r rs))))"

text \<open>
  The loop of \<^verbatim>\<open>notifyObserverGroup\<close> with a clock. In parallel mode a member is
  started at the time the loop is at and the loop goes on at once; otherwise the loop
  waits until the member has settled.
\<close>

fun notifyMembers_at ::
  "(Binding \<Rightarrow> string \<Rightarrow> nat) \<Rightarrow> 'e LifeCycleObserverRegistry \<Rightarrow> string \<Rightarrow> Binding list \<Rightarrow>
     (nat \<times> ('e + unit)) list \<Rightarrow> nat \<Rightarrow> ('e + (nat \<times> ('e + unit)) list) \<times> nat" where
  "notifyMembers_at takes this event [] notifiers now = (Inr notifiers, now)"
| "notifyMembers_at takes this event (b # bs) notifiers now =
     (if parallel (options this) = Some True
      then notifyMembers_at takes this event bs
             (notifiers @ [(now + takes b event, notifyObserver this b event)]) now
      else (case notifyObserver this b event of
              Inl e \<Rightarrow> (Inl e, now + takes b event)
            | Inr u \<Rightarrow> notifyMembers_at takes this event bs notifiers (now + takes b event)))"

text \<open>When the promise that \<^verbatim>\<open>notifyObserverGroup\<close> returns settles, and with what.\<close>

definition notifyObserverGroup_at ::
  "(Binding \<Rightarrow> string \<Rightarrow> nat) \<Rightarrow> 'e LifeCycleObserverRegistry \<Rightarrow> LifeCycleObserverGroup \<Rightarrow> string \<Rightarrow>
     nat \<Rightarrow> nat \<times> ('e + unit)" where
  "notifyObserverGroup_at takes this g event now =
     (case notifyMembers_at takes this event (bindings g) [] now of
        (Inl e, t) \<Rightarrow> (t, Inl e)
      | (Inr notifiers, t) \<Rightarrow>
          (if parallel (options this) = Some True
           then promise_all_at t notifiers
           else (t, Inr ())))"

section \<open>Notions used in the statements\<close>

text \<open>
  The comparator that both sorters hand to \<^verbatim>\<open>sort\<close>, on the names alone: the
  difference of the indices when either name is in the priority list, else the
  comparison of the names.
\<close>

definition compareByOrder :: "string list \<Rightarrow> string \<Rightarrow> string \<Rightarrow> int" where
  "compareByOrder P a b =
     (let i1 = indexOf P a; i2 = indexOf P b
      in if i1 \<noteq> -1 \<or> i2 \<noteq> -1 then i1 - i2
         else if a < b then -1 else if a > b then 1 else 0)"

text \<open>The map that the grouping loop of both sorters builds from a classifier.\<close>

definition grouped :: "(Binding \<Rightarrow> string) \<Rightarrow> Binding list \<Rightarrow> (string \<times> Binding list) list" where
  "grouped classify bs = fold (\<lambda>binding m. push_to_group (classify binding) binding m) bs []"

definition sorted_entries ::
  "(Binding \<Rightarrow> string) \<Rightarrow> string list \<Rightarrow> Binding list \<Rightarrow> (string \<times> Binding list) list" where
  "sorted_entries classify P bs =
     js_sort (\<lambda>a b. compareByOrder P (fst a) (fst b)) (grouped classify bs)"

text \<open>
  The order of group names that the comparator induces: names of the priority list by
  their index, names outside the list before every name of the list, and names outside
  the list among themselves by the order of strings.
\<close>

definition precedes :: "string list \<Rightarrow> string \<Rightarrow> string \<Rightarrow> bool" where
  "precedes P a b \<longleftrightarrow>
     (a \<in> set P \<and> b \<in> set P \<and> indexOf P a < indexOf P b) \<or>
     (a \<notin> set P \<and> b \<in> set P) \<or>
     (a \<notin> set P \<and> b \<notin> set P \<and> a < b)"

text \<open>
  The two loops of \<open>notifyGroups\<close> as one walk over the calls it makes, in the order
  it makes them: every group for the first event, then every group for the next. The
  walk stops at the first call that rejects. \<open>entry_of\<close> is the trace entry of a call.
\<close>

fun notifyPlan ::
  "('e list \<Rightarrow> 'e) \<Rightarrow> 'e LifeCycleObserverRegistry \<Rightarrow> (string \<times> LifeCycleObserverGroup) list \<Rightarrow>
     ('e + unit) \<times> trace" where
  "notifyPlan first this [] = (Inr (), [])"
| "notifyPlan first this ((event, g) # rest) =
     (case notifyObserverGroup first this g event of
        (Inl e, called) \<Rightarrow> (Inl e, [(event, group g, called)])
      | (Inr u, called) \<Rightarrow>
          (case notifyPlan first this rest of
             (r, t) \<Rightarrow> (r, (event, group g, called) # t)))"

definition entry_of ::
  "('e list \<Rightarrow> 'e) \<Rightarrow> 'e LifeCycleObserverRegistry \<Rightarrow> string \<times> LifeCycleObserverGroup \<Rightarrow>
     string \<times> string \<times> string list" where
  "entry_of first this c = (fst c, group (snd c), snd (notifyObserverGroup first this (snd c) (fst c)))"

text \<open>
  What goes wrong when a member is notified of an event, read from the context and the
  observer alone: the error of the resolution when the key does not resolve, the error
  the method rejects with when it does, and nothing when the observer has no such method
  or the method resolves.
\<close>

definition failure_of :: "'e LifeCycleObserverRegistry \<Rightarrow> Binding \<Rightarrow> string \<Rightarrow> 'e option" where
  "failure_of this b event =
     (case get (ctx this) (key b) of
        Inl e \<Rightarrow> Some e
      | Inr observer \<Rightarrow>
          (case observer event of
             None \<Rightarrow> None
           | Some Resolved \<Rightarrow> None
           | Some (Rejected e) \<Rightarrow> Some e))"

section \<open>Example inputs\<close>

definition ex_tags :: CoreTags where
  "ex_tags = \<lparr>LIFE_CYCLE_OBSERVER = ''lifeCycleObserver'',
              LIFE_CYCLE_OBSERVER_GROUP = ''lifeCycleObserverGroup''\<rparr>"

text \<open>A singleton constant binding tagged as a life cycle observer, with further tags.\<close>

definition ex_observer :: "string \<Rightarrow> (string \<times> string) list \<Rightarrow> Binding" where
  "ex_observer k tags =
     \<lparr>key = k, btype = CONSTANT, scope = SINGLETON,
      tagMap = map_of ((''lifeCycleObserver'', ''lifeCycleObserver'') # tags)\<rparr>"

text \<open>A middleware binding with its tags.\<close>

definition ex_middleware :: "string \<Rightarrow> (string \<times> string) list \<Rightarrow> Binding" where
  "ex_middleware k tags =
     \<lparr>key = k, btype = OTHER_TYPE, scope = SINGLETON,
      tagMap = map_of ((''middleware'', ''middleware'') # tags)\<rparr>"

text \<open>
  The scenario of the specification: \<open>A\<close> in group \<open>db\<close>, \<open>B\<close> in group \<open>server\<close>,
  \<open>C\<close> without a group, and the priority list \<open>db\<close>, \<open>server\<close>. Every observer
  resolves, and the methods it has resolve; errors are numbers.
\<close>

definition ex_observers :: "Binding list" where
  "ex_observers =
     [ex_observer ''A'' [(''lifeCycleObserverGroup'', ''db'')],
      ex_observer ''B'' [(''lifeCycleObserverGroup'', ''server'')],
      ex_observer ''C'' []]"

definition ex_context :: "nat Context" where
  "ex_context = \<lparr>registry = ex_observers, get = (\<lambda>k. Inr (\<lambda>event. Some Resolved))\<rparr>"

definition ex_registry :: "bool \<Rightarrow> nat LifeCycleObserverRegistry" where
  "ex_registry par =
     \<lparr>ctx = ex_context,
      options = \<lparr>groupsByOrder = [''db'', ''server''], parallel = Some par\<rparr>\<rparr>"

text \<open>
  The middleware scenario of the specification: \<open>M1\<close> in phase \<open>auth\<close> under the path
  \<open>/api\<close>, \<open>M2\<close> in phase \<open>auth\<close>, \<open>M3\<close> in phase \<open>log\<close>, with the priority list
  \<open>log\<close>, \<open>auth\<close>. Handlers are numbers.
\<close>

definition ex_middlewares :: "Binding list" where
  "ex_middlewares =
     [ex_middleware ''M1'' [(''phase'', ''auth''), (''path'', ''/api'')],
      ex_middleware ''M2'' [(''phase'', ''auth'')],
      ex_middleware ''M3'' [(''phase'', ''log'')]]"

definition ex_view :: "(nat, nat) ContextView" where
  "ex_view = \<lparr>view_bindings = ex_middlewares, view_values = Inr [1, 2, 3]\<rparr>"

definition ex_middleware_registry :: "(nat, nat) MiddlewareRegistry" where
  "ex_middleware_registry =
     \<lparr>middlewareView = ex_view,
      options_mw = \<lparr>phasesByOrder = [''log'', ''auth''], parallel_mw = Some False\<rparr>\<rparr>"

text \<open>
  The life cycle registry read with the tag key \<open>phase\<close> as its group tag and the
  priority list of the middleware scenario.
\<close>

definition ex_phase_tags :: CoreTags where
  "ex_phase_tags = \<lparr>LIFE_CYCLE_OBSERVER = ''middleware'', LIFE_CYCLE_OBSERVER_GROUP = ''phase''\<rparr>"

definition ex_phase_registry :: "nat LifeCycleObserverRegistry" where
  "ex_phase_registry =
     \<lparr>ctx = \<lparr>registry = ex_middlewares, get = (\<lambda>k. Inr (\<lambda>event. None))\<rparr>,
      options = \<lparr>groupsByOrder = [''log'', ''auth''], parallel = Some False\<rparr>\<rparr>"

text \<open>
  The scenario of the specification with an observer that fails: the \<open>start\<close> method
  of \<open>B\<close> rejects with the error \<open>7\<close>.
\<close>

definition ex_failing_context :: "nat Context" where
  "ex_failing_context =
     \<lparr>registry = ex_observers,
      get = (\<lambda>k. if k = ''B''
                 then Inr (\<lambda>event. if event = ''start'' then Some (Rejected 7) else Some Resolved)
                 else Inr (\<lambda>event. Some Resolved))\<rparr>"

definition ex_failing_registry :: "bool \<Rightarrow> nat LifeCycleObserverRegistry" where
  "ex_failing_registry par =
     \<lparr>ctx = ex_failing_context,
      options = \<lparr>groupsByOrder = [''db'', ''server''], parallel = Some par\<rparr>\<rparr>"

text \<open>
  The scenario of the specification with an observer that does not resolve: the
  context fails to resolve \<open>A\<close>, with the error \<open>3\<close>.
\<close>

definition ex_unresolved_context :: "nat Context" where
  "ex_unresolved_context =
     \<lparr>registry = ex_observers,
      get = (\<lambda>k. if k = ''A'' then Inl 3 else Inr (\<lambda>event. Some Resolved))\<rparr>"

definition ex_unresolved_registry :: "bool \<Rightarrow> nat LifeCycleObserverRegistry" where
  "ex_unresolved_registry par =
     \<lparr>ctx = ex_unresolved_context,
      options = \<lparr>groupsByOrder = [''db'', ''server''], parallel = Some par\<rparr>\<rparr>"

text \<open>
  A group of two members notified in parallel: \<open>T1\<close> rejects with the error \<open>1\<close>
  after \<open>5\<close> ticks, \<open>T2\<close> resolves after \<open>40\<close> ticks.
\<close>

definition ex_racing_group :: LifeCycleObserverGroup where
  "ex_racing_group = \<lparr>group = ''server'', bindings = [ex_observer ''T1'' [], ex_observer ''T2'' []]\<rparr>"

definition ex_racing_registry :: "nat LifeCycleObserverRegistry" where
  "ex_racing_registry =
     \<lparr>ctx = \<lparr>registry = bindings ex_racing_group,
             get = (\<lambda>k. if k = ''T1'' then Inr (\<lambda>event. Some (Rejected 1))
                        else Inr (\<lambda>event. Some Resolved))\<rparr>,
      options = \<lparr>groupsByOrder = [''server''], parallel = Some True\<rparr>\<rparr>"

definition ex_takes :: "Binding \<Rightarrow> string \<Rightarrow> nat" where
  "ex_takes b event = (if key b = ''T1'' then 5 else 40)"

section \<open>Indices, the comparator and the sort\<close>

lemma indexOf_ge: "- 1 \<le> indexOf xs x"
  by (induction xs) (auto simp: Let_def)

lemma indexOf_absent: "indexOf xs x = - 1 \<longleftrightarrow> x \<notin> set xs"
proof (induction xs)
  case Nil
  show ?case by simp
next
  case (Cons y ys)
  have "- 1 \<le> indexOf ys x" by (rule indexOf_ge)
  with Cons show ?case by (auto simp: Let_def)
qed

lemma indexOf_nth: "x \<in> set xs \<Longrightarrow> 0 \<le> indexOf xs x \<and> nat (indexOf xs x) < length xs \<and> xs ! nat (indexOf xs x) = x"
proof (induction xs)
  case Nil
  then show ?case by simp
next
  case (Cons y ys)
  show ?case
  proof (cases "y = x")
    case True
    then show ?thesis by simp
  next
    case False
    with Cons.prems have mem: "x \<in> set ys" by simp
    from Cons.IH [OF mem] have ih: "0 \<le> indexOf ys x" "nat (indexOf ys x) < length ys" "ys ! nat (indexOf ys x) = x"
      by simp_all
    from ih(1) have "indexOf ys x \<noteq> - 1" by simp
    with False ih show ?thesis by (simp add: Let_def nat_add_distrib)
  qed
qed

lemma indexOf_inj: "x \<in> set xs \<Longrightarrow> indexOf xs x = indexOf xs y \<Longrightarrow> x = y"
proof -
  assume mem: "x \<in> set xs" and eq: "indexOf xs x = indexOf xs y"
  from indexOf_nth [OF mem] have a: "0 \<le> indexOf xs x" "xs ! nat (indexOf xs x) = x" by simp_all
  from a(1) eq have "indexOf xs y \<noteq> - 1" by simp
  then have "y \<in> set xs" by (simp add: indexOf_absent)
  from indexOf_nth [OF this] have "xs ! nat (indexOf xs y) = y" by simp
  with a(2) eq show "x = y" by simp
qed

lemma indexOf_cases:
  "(x \<notin> set xs \<and> indexOf xs x = - 1) \<or> (x \<in> set xs \<and> 0 \<le> indexOf xs x)"
  using indexOf_absent [of xs x] indexOf_nth [of x xs] by blast

lemma compareByOrder_zero: "compareByOrder P a b = 0 \<longleftrightarrow> a = b"
  using indexOf_cases [of a P] indexOf_cases [of b P] indexOf_inj [of a P b]
  by (auto simp: compareByOrder_def Let_def)

lemma compareByOrder_neg:
  "compareByOrder P a b < 0 \<longleftrightarrow>
     (a \<in> set P \<and> b \<in> set P \<and> indexOf P a < indexOf P b) \<or>
     (a \<notin> set P \<and> b \<in> set P) \<or>
     (a \<notin> set P \<and> b \<notin> set P \<and> a < b)"
  using indexOf_cases [of a P] indexOf_cases [of b P]
  by (auto simp: compareByOrder_def Let_def)

lemma compareByOrder_total: "\<not> compareByOrder P a b \<le> 0 \<Longrightarrow> compareByOrder P b a \<le> 0"
  using indexOf_cases [of a P] indexOf_cases [of b P]
  by (auto simp: compareByOrder_def Let_def split: if_splits)

lemma compareByOrder_trans:
  "compareByOrder P a b \<le> 0 \<Longrightarrow> compareByOrder P b c \<le> 0 \<Longrightarrow> compareByOrder P a c \<le> 0"
  using indexOf_cases [of a P] indexOf_cases [of b P] indexOf_cases [of c P]
  by (auto simp: compareByOrder_def Let_def split: if_splits)

lemma set_insert_by: "set (insert_by cmp x xs) = insert x (set xs)"
  by (induction xs) auto

lemma mset_insert_by: "mset (insert_by cmp x xs) = add_mset x (mset xs)"
  by (induction xs) auto

lemma mset_js_sort: "mset (js_sort cmp xs) = mset xs"
  by (induction xs) (simp_all add: js_sort_def mset_insert_by)

lemma set_js_sort: "set (js_sort cmp xs) = set xs"
  using mset_js_sort [of cmp xs] by (metis set_mset_mset)

lemma sorted_insert_by:
  assumes tot: "\<And>a b. \<not> cmp a b \<le> 0 \<Longrightarrow> cmp b a \<le> 0"
    and tr: "\<And>a b c. cmp a b \<le> 0 \<Longrightarrow> cmp b c \<le> 0 \<Longrightarrow> cmp a c \<le> 0"
  shows "sorted_wrt (\<lambda>a b. cmp a b \<le> 0) xs \<Longrightarrow> sorted_wrt (\<lambda>a b. cmp a b \<le> 0) (insert_by cmp x xs)"
proof (induction xs)
  case Nil
  show ?case by simp
next
  case (Cons y ys)
  show ?case
  proof (cases "cmp x y \<le> 0")
    case True
    with Cons.prems tr show ?thesis by auto
  next
    case False
    then have "cmp y x \<le> 0" by (rule tot)
    with False Cons show ?thesis by (auto simp: set_insert_by)
  qed
qed

lemma sorted_js_sort:
  assumes tot: "\<And>a b. \<not> cmp a b \<le> 0 \<Longrightarrow> cmp b a \<le> 0"
    and tr: "\<And>a b c. cmp a b \<le> 0 \<Longrightarrow> cmp b c \<le> 0 \<Longrightarrow> cmp a c \<le> 0"
  shows "sorted_wrt (\<lambda>a b. cmp a b \<le> 0) (js_sort cmp xs)"
proof (induction xs)
  case Nil
  show ?case by (simp add: js_sort_def)
next
  case (Cons x xs)
  have "js_sort cmp (x # xs) = insert_by cmp x (js_sort cmp xs)" by (simp add: js_sort_def)
  with Cons sorted_insert_by [of cmp, OF tot tr] show ?case by simp
qed

lemma map_insert_by:
  "(\<And>a b. cmp a b = cmp' (f a) (f b)) \<Longrightarrow> map f (insert_by cmp x xs) = insert_by cmp' (f x) (map f xs)"
  by (induction xs) auto

lemma map_js_sort:
  assumes "\<And>a b. cmp a b = cmp' (f a) (f b)"
  shows "map f (js_sort cmp xs) = js_sort cmp' (map f xs)"
proof (induction xs)
  case Nil
  show ?case by (simp add: js_sort_def)
next
  case (Cons x xs)
  have "map f (js_sort cmp (x # xs)) = map f (insert_by cmp x (js_sort cmp xs))"
    by (simp add: js_sort_def)
  also have "\<dots> = insert_by cmp' (f x) (map f (js_sort cmp xs))"
    using assms by (rule map_insert_by)
  also have "\<dots> = js_sort cmp' (map f (x # xs))"
    using Cons by (simp add: js_sort_def)
  finally show ?case .
qed

lemma grouped_snoc: "grouped classify (bs @ [b]) = push_to_group (classify b) b (grouped classify bs)"
  by (simp add: grouped_def)

lemma grouped_inv:
  "distinct (map fst (grouped classify bs)) \<and>
   set (map fst (grouped classify bs)) = classify ` set bs \<and>
   (\<forall>(k, v) \<in> set (grouped classify bs). v = filter (\<lambda>b. classify b = k) bs)"
proof (induction bs rule: rev_induct)
  case Nil
  show ?case by (simp add: grouped_def)
next
  case (snoc b bs)
  let ?m = "grouped classify bs"
  let ?g = "classify b"
  from snoc have d: "distinct (map fst ?m)"
    and s: "set (map fst ?m) = classify ` set bs"
    and f: "\<And>k v. (k, v) \<in> set ?m \<Longrightarrow> v = filter (\<lambda>b. classify b = k) bs"
    by auto
  show ?case
  proof (cases "map_of ?m ?g")
    case None
    then have notin: "?g \<notin> fst ` set ?m" by (simp add: map_of_eq_None_iff)
    with s have nocl: "?g \<notin> classify ` set bs" by simp
    then have emp: "filter (\<lambda>x. classify x = ?g) bs = []" by (force simp: filter_empty_conv image_iff)
    have eq: "grouped classify (bs @ [b]) = ?m @ [(?g, [b])]"
      using None by (simp add: grouped_snoc push_to_group_def)
    have c1: "distinct (map fst (?m @ [(?g, [b])]))"
      using d notin by simp
    have c2: "set (map fst (?m @ [(?g, [b])])) = classify ` set (bs @ [b])"
      using s by auto
    have c3: "v = filter (\<lambda>x. classify x = k) (bs @ [b])" if "(k, v) \<in> set (?m @ [(?g, [b])])" for k v
    proof (cases "(k, v) \<in> set ?m")
      case True
      then have "k \<in> fst ` set ?m" by force
      with notin have "k \<noteq> ?g" by blast
      with f [OF True] show ?thesis by auto
    next
      case False
      with that have "k = ?g" "v = [b]" by auto
      with emp show ?thesis by simp
    qed
    show ?thesis
      unfolding eq using c1 c2 c3 by blast
  next
    case (Some v0)
    have eq: "grouped classify (bs @ [b]) = map (\<lambda>(k, v). if k = ?g then (k, v @ [b]) else (k, v)) ?m"
      using Some by (simp add: grouped_snoc push_to_group_def)
    have keys: "map fst (map (\<lambda>(k, v). if k = ?g then (k, v @ [b]) else (k, v)) ?m) = map fst ?m"
      by (induction ?m) (auto split: prod.splits)
    from Some have "?g \<in> fst ` set ?m" by (metis map_of_eq_None_iff option.distinct(1))
    with s have gin: "?g \<in> classify ` set bs" by simp
    have c1: "distinct (map fst (grouped classify (bs @ [b])))"
      unfolding eq keys using d .
    have c2: "set (map fst (grouped classify (bs @ [b]))) = classify ` set (bs @ [b])"
      unfolding eq keys using s gin by auto
    have c3: "v = filter (\<lambda>x. classify x = k) (bs @ [b])" if "(k, v) \<in> set (grouped classify (bs @ [b]))" for k v
    proof -
      from that obtain k' v' where kv: "(k', v') \<in> set ?m"
        and upd: "(k, v) = (if k' = ?g then (k', v' @ [b]) else (k', v'))"
        unfolding eq by auto
      from f [OF kv] upd show ?thesis by (auto split: if_splits)
    qed
    show ?thesis
      using c1 c2 c3 by blast
  qed
qed


lemma strict_of_distinct:
  "sorted_wrt (\<lambda>a b. compareByOrder P a b \<le> 0) xs \<Longrightarrow> distinct xs \<Longrightarrow>
     sorted_wrt (\<lambda>a b. compareByOrder P a b < 0) xs"
proof (induction xs)
  case Nil
  show ?case by simp
next
  case (Cons x xs)
  have "compareByOrder P x y < 0" if "y \<in> set xs" for y
  proof -
    from Cons.prems that have "compareByOrder P x y \<le> 0" "x \<noteq> y" by auto
    then show ?thesis using compareByOrder_zero [of P x y] by simp
  qed
  with Cons show ?case by simp
qed

lemma sorted_entries_keys:
  "distinct (map fst (sorted_entries classify P bs)) \<and>
   set (map fst (sorted_entries classify P bs)) = classify ` set bs"
proof -
  have "mset (map fst (sorted_entries classify P bs)) = mset (map fst (grouped classify bs))"
    by (simp add: sorted_entries_def mset_js_sort)
  then have "distinct (map fst (sorted_entries classify P bs)) = distinct (map fst (grouped classify bs))"
    and "set (map fst (sorted_entries classify P bs)) = set (map fst (grouped classify bs))"
    by (metis mset_eq_imp_distinct_iff, metis mset_eq_setD)
  with grouped_inv [of classify bs] show ?thesis by simp
qed

lemma sorted_entries_members:
  "(k, v) \<in> set (sorted_entries classify P bs) \<Longrightarrow> v = filter (\<lambda>b. classify b = k) bs"
  using grouped_inv [of classify bs] by (auto simp: sorted_entries_def set_js_sort)

lemma sorted_entries_sorted:
  "sorted_wrt (\<lambda>a b. compareByOrder P a b < 0) (map fst (sorted_entries classify P bs))"
proof -
  let ?cmp = "\<lambda>a b. compareByOrder P (fst a) (fst b)"
  have "sorted_wrt (\<lambda>a b. ?cmp a b \<le> 0) (js_sort ?cmp (grouped classify bs))"
    by (rule sorted_js_sort) (auto intro: compareByOrder_total compareByOrder_trans)
  then have "sorted_wrt (\<lambda>a b. compareByOrder P a b \<le> 0) (map fst (sorted_entries classify P bs))"
    by (simp add: sorted_entries_def sorted_wrt_map)
  then show ?thesis
    using sorted_entries_keys [of classify P bs] by (simp add: strict_of_distinct)
qed

lemma sortObserverBindingsByGroup_entries:
  "map (\<lambda>g. (group g, bindings g)) (sortObserverBindingsByGroup ct this bs) =
     sorted_entries (getObserverGroup ct this) (groupsByOrder (options this)) bs"
proof -
  let ?P = "groupsByOrder (options this)"
  let ?mk = "\<lambda>entry. \<lparr>group = fst entry, bindings = snd entry\<rparr>"
  let ?f = "\<lambda>g. (group g, bindings g)"
  have cmp: "sortObserverBindingsByGroup ct this bs =
      js_sort (\<lambda>g1 g2. compareByOrder ?P (group g1) (group g2))
        (map ?mk (grouped (getObserverGroup ct this) bs))"
    by (simp add: sortObserverBindingsByGroup_def compareByOrder_def grouped_def Let_def)
  have "map ?f (sortObserverBindingsByGroup ct this bs) =
      js_sort (\<lambda>a b. compareByOrder ?P (fst a) (fst b))
        (map ?f (map ?mk (grouped (getObserverGroup ct this) bs)))"
    unfolding cmp by (rule map_js_sort) simp
  also have "map ?f (map ?mk (grouped (getObserverGroup ct this) bs)) = grouped (getObserverGroup ct this) bs"
    by (simp add: comp_def)
  finally show ?thesis by (simp add: sorted_entries_def)
qed

lemma sortMiddlewareBindingsByPhase_entries:
  "map (\<lambda>p. (phase p, phase_bindings p)) (sortMiddlewareBindingsByPhase this bs) =
     sorted_entries getMiddlewarePhase (phasesByOrder (options_mw this)) bs"
proof -
  let ?P = "phasesByOrder (options_mw this)"
  let ?mk = "\<lambda>(ph, bindingsInPhase). \<lparr>phase = ph, phase_bindings = bindingsInPhase\<rparr>"
  let ?f = "\<lambda>p. (phase p, phase_bindings p)"
  have cmp: "sortMiddlewareBindingsByPhase this bs =
      js_sort (\<lambda>p1 p2. compareByOrder ?P (phase p1) (phase p2))
        (map ?mk (grouped getMiddlewarePhase bs))"
    by (simp add: sortMiddlewareBindingsByPhase_def compareByOrder_def grouped_def Let_def)
  have "map ?f (sortMiddlewareBindingsByPhase this bs) =
      js_sort (\<lambda>a b. compareByOrder ?P (fst a) (fst b))
        (map ?f (map ?mk (grouped getMiddlewarePhase bs)))"
    unfolding cmp by (rule map_js_sort) simp
  also have "map ?f (map ?mk (grouped getMiddlewarePhase bs)) = grouped getMiddlewarePhase bs"
    by (simp add: comp_def case_prod_beta)
  finally show ?thesis by (simp add: sorted_entries_def)
qed

lemma sorted_entries_precedes:
  "sorted_wrt (precedes P) (map fst (sorted_entries classify P bs))"
  using sorted_entries_sorted [of P classify bs]
  by (simp add: compareByOrder_neg precedes_def [abs_def])

lemma group_names:
  "map group (sortObserverBindingsByGroup ct this bs) =
     map fst (sorted_entries (getObserverGroup ct this) (groupsByOrder (options this)) bs)"
  using arg_cong [OF sortObserverBindingsByGroup_entries [of ct this bs], of "map fst"]
  by (simp add: comp_def)

lemma phase_names:
  "map phase (sortMiddlewareBindingsByPhase mw bs) =
     map fst (sorted_entries getMiddlewarePhase (phasesByOrder (options_mw mw)) bs)"
  using arg_cong [OF sortMiddlewareBindingsByPhase_entries [of mw bs], of "map fst"]
  by (simp add: comp_def)

lemma group_members:
  assumes "g \<in> set (sortObserverBindingsByGroup ct this bs)"
  shows "bindings g = filter (\<lambda>b. getObserverGroup ct this b = group g) bs"
proof -
  from assms have "(group g, bindings g) \<in> set (map (\<lambda>g. (group g, bindings g)) (sortObserverBindingsByGroup ct this bs))"
    by force
  then show ?thesis
    unfolding sortObserverBindingsByGroup_entries by (rule sorted_entries_members)
qed

lemma phase_members:
  assumes "p \<in> set (sortMiddlewareBindingsByPhase mw bs)"
  shows "phase_bindings p = filter (\<lambda>b. getMiddlewarePhase b = phase p) bs"
proof -
  from assms have "(phase p, phase_bindings p) \<in> set (map (\<lambda>p. (phase p, phase_bindings p)) (sortMiddlewareBindingsByPhase mw bs))"
    by force
  then show ?thesis
    unfolding sortMiddlewareBindingsByPhase_entries by (rule sorted_entries_members)
qed

lemma push_to_group_mset:
  "distinct (map fst m) \<Longrightarrow>
     mset (concat (map snd (push_to_group g b m))) = add_mset b (mset (concat (map snd m)))"
proof (cases "map_of m g")
  case None
  then show ?thesis by (simp add: push_to_group_def)
next
  case (Some v0)
  assume d: "distinct (map fst m)"
  from Some have gin: "g \<in> fst ` set m" by (metis map_of_eq_None_iff option.distinct(1))
  have "mset (concat (map snd (map (\<lambda>(k, v). if k = g then (k, v @ [b]) else (k, v)) m))) =
      add_mset b (mset (concat (map snd m)))"
    using d gin
  proof (induction m)
    case Nil
    then show ?case by simp
  next
    case (Cons e m)
    obtain k v where e: "e = (k, v)" by (cases e)
    show ?case
    proof (cases "k = g")
      case True
      with Cons.prems e have "g \<notin> fst ` set m" by auto
      then have "map (\<lambda>(k, v). if k = g then (k, v @ [b]) else (k, v)) m = m"
        by (induction m) auto
      with True e show ?thesis by simp
    next
      case False
      with Cons.prems e have "distinct (map fst m)" "g \<in> fst ` set m" by auto
      from Cons.IH [OF this] False e show ?thesis by simp
    qed
  qed
  with Some show ?thesis by (simp add: push_to_group_def)
qed

lemma grouped_mset: "mset (concat (map snd (grouped classify bs))) = mset bs"
proof (induction bs rule: rev_induct)
  case Nil
  show ?case by (simp add: grouped_def)
next
  case (snoc b bs)
  have "distinct (map fst (grouped classify bs))" using grouped_inv [of classify bs] by simp
  from push_to_group_mset [OF this] snoc show ?case by (simp add: grouped_snoc)
qed

lemma insert_by_concat_mset:
  "mset (concat (map snd (insert_by cmp x xs))) = mset (snd x) + mset (concat (map snd xs))"
  by (induction xs) auto

lemma js_sort_concat_mset:
  "mset (concat (map snd (js_sort cmp xs))) = mset (concat (map snd xs))"
proof (induction xs)
  case Nil
  show ?case by (simp add: js_sort_def)
next
  case (Cons x xs)
  have "js_sort cmp (x # xs) = insert_by cmp x (js_sort cmp xs)" by (simp add: js_sort_def)
  with Cons show ?case by (simp add: insert_by_concat_mset)
qed

lemma sorted_entries_mset: "mset (concat (map snd (sorted_entries classify P bs))) = mset bs"
  by (simp add: sorted_entries_def js_sort_concat_mset grouped_mset)

text \<open>
  The comparator is a total order on the distinct group names, so the sorted arrangement
  is unique: every arrangement of the groups that is sorted for the comparator is the one
  that \<open>js_sort\<close> computes, whatever algorithm \<^verbatim>\<open>Array.prototype.sort\<close> runs.
\<close>

lemma compareByOrder_antisym:
  assumes "compareByOrder P a b \<le> 0" and "compareByOrder P b a \<le> 0"
  shows "a = b"
proof (rule ccontr)
  assume ne: "a \<noteq> b"
  with assms compareByOrder_zero [of P a b] compareByOrder_zero [of P b a]
  have "compareByOrder P a b < 0" and "compareByOrder P b a < 0" by auto
  then have ab: "precedes P a b" and ba: "precedes P b a"
    by (simp_all add: compareByOrder_neg precedes_def)
  show False
  proof (cases "a \<in> set P")
    case True
    with ab ba show False by (auto simp: precedes_def)
  next
    case False
    with ab ba have "a < b" "b < a" by (auto simp: precedes_def)
    then show False by (rule less_asym)
  qed
qed

lemma sorted_wrt_unique:
  assumes "sorted_wrt R xs" "sorted_wrt R ys" "mset xs = mset ys"
    and anti: "\<And>a b. a \<in> set xs \<Longrightarrow> b \<in> set xs \<Longrightarrow> R a b \<Longrightarrow> R b a \<Longrightarrow> a = b"
  shows "xs = ys"
  using assms
proof (induction xs arbitrary: ys)
  case Nil
  then show ?case by simp
next
  case (Cons x xs)
  from Cons.prems(3) have "ys \<noteq> []" by auto
  then obtain y ys' where ys: "ys = y # ys'" by (cases ys) auto
  from Cons.prems(3) have sets: "set (x # xs) = set ys" by (metis mset_eq_setD)
  have xy: "x = y"
  proof (rule ccontr)
    assume ne: "x \<noteq> y"
    with sets ys have "x \<in> set ys'" "y \<in> set xs" by auto
    with Cons.prems(1,2) ys have "R y x" "R x y" by auto
    with Cons.prems(4) [of x y] \<open>y \<in> set xs\<close> ne show False by auto
  qed
  with Cons.prems(3) ys have m: "mset xs = mset ys'" by simp
  have "xs = ys'"
  proof (rule Cons.IH)
    show "sorted_wrt R xs" using Cons.prems(1) by simp
    show "sorted_wrt R ys'" using Cons.prems(2) ys by simp
    show "mset xs = mset ys'" by (rule m)
    show "\<And>a b. a \<in> set xs \<Longrightarrow> b \<in> set xs \<Longrightarrow> R a b \<Longrightarrow> R b a \<Longrightarrow> a = b"
      using Cons.prems(4) by simp
  qed
  with xy ys show ?case by simp
qed

lemma sorted_entries_unique:
  assumes perm: "mset ys = mset (grouped classify bs)"
    and sorted: "sorted_wrt (\<lambda>a b. compareByOrder P (fst a) (fst b) \<le> 0) ys"
  shows "ys = sorted_entries classify P bs"
proof -
  let ?R = "\<lambda>a b. compareByOrder P (fst a) (fst b) \<le> 0"
  let ?E = "sorted_entries classify P bs"
  have s: "sorted_wrt ?R ?E"
    unfolding sorted_entries_def
    by (rule sorted_js_sort) (auto intro: compareByOrder_total compareByOrder_trans)
  have m: "mset ?E = mset ys"
    using perm by (simp add: sorted_entries_def mset_js_sort)
  have d: "distinct (map fst ?E)" using sorted_entries_keys [of classify P bs] by simp
  have anti: "a = b" if "a \<in> set ?E" "b \<in> set ?E" "?R a b" "?R b a" for a b
  proof -
    from that(3,4) have "fst a = fst b" by (rule compareByOrder_antisym)
    with d that(1,2) show ?thesis by (meson distinct_map inj_onD)
  qed
  from sorted_wrt_unique [of ?R ?E ys, OF s sorted m anti] show ?thesis by simp
qed

section \<open>The group sorter\<close>

text \<open>
  Claim C1, as the code has it. For every list of bindings and every priority list, the
  names of the groups that \<open>sortObserverBindingsByGroup\<close> returns are a permutation of
  the groups of the bindings (each name once), and they are ordered as follows: two
  names of the priority list stand in the order of their indices, every name outside the
  priority list stands before every name of the list, and names outside the list stand
  in the order of strings. The same holds for the phases of
  \<open>sortMiddlewareBindingsByPhase\<close>.
\<close>

theorem group_sort_order:
  "distinct (map group (sortObserverBindingsByGroup ct this bs)) \<and>
   set (map group (sortObserverBindingsByGroup ct this bs)) = getObserverGroup ct this ` set bs \<and>
   sorted_wrt (precedes (groupsByOrder (options this)))
     (map group (sortObserverBindingsByGroup ct this bs)) \<and>
   distinct (map phase (sortMiddlewareBindingsByPhase mw ms)) \<and>
   set (map phase (sortMiddlewareBindingsByPhase mw ms)) = getMiddlewarePhase ` set ms \<and>
   sorted_wrt (precedes (phasesByOrder (options_mw mw)))
     (map phase (sortMiddlewareBindingsByPhase mw ms))"
  unfolding group_names phase_names
  using sorted_entries_keys [of "getObserverGroup ct this" "groupsByOrder (options this)" bs]
    sorted_entries_keys [of getMiddlewarePhase "phasesByOrder (options_mw mw)" ms]
    sorted_entries_precedes [of "groupsByOrder (options this)" "getObserverGroup ct this" bs]
    sorted_entries_precedes [of "phasesByOrder (options_mw mw)" getMiddlewarePhase ms]
  by simp

theorem group_sort_order_witness:
  "map group (sortObserverBindingsByGroup ex_tags (ex_registry True) ex_observers) =
     ['''', ''db'', ''server''] \<and>
   sorted_wrt (precedes [''db'', ''server'']) ['''', ''db'', ''server''] \<and>
   map phase (sortMiddlewareBindingsByPhase ex_middleware_registry ex_middlewares) =
     [''log'', ''auth''] \<and>
   sorted_wrt (precedes [''log'', ''auth'']) [''log'', ''auth'']"
proof -
  have g: "map group (sortObserverBindingsByGroup ex_tags (ex_registry True) ex_observers) =
      ['''', ''db'', ''server'']"
    by (simp add: sortObserverBindingsByGroup_def getObserverGroup_def ex_tags_def ex_registry_def
        ex_observers_def ex_observer_def js_sort_def push_to_group_def falsy_def or_empty_def)
  have p: "map phase (sortMiddlewareBindingsByPhase ex_middleware_registry ex_middlewares) =
      [''log'', ''auth'']"
    by (simp add: sortMiddlewareBindingsByPhase_def getMiddlewarePhase_def
        ex_middleware_registry_def ex_middlewares_def ex_middleware_def js_sort_def
        push_to_group_def or_empty_def)
  have og: "groupsByOrder (options (ex_registry True)) = [''db'', ''server'']"
    by (simp add: ex_registry_def)
  have op: "phasesByOrder (options_mw ex_middleware_registry) = [''log'', ''auth'']"
    by (simp add: ex_middleware_registry_def)
  show ?thesis
    using group_sort_order [of ex_tags "ex_registry True" ex_observers
        ex_middleware_registry ex_middlewares]
    unfolding g p og op by simp
qed

text \<open>
  The scenario of the specification, where the claim fails as it is stated: the group
  \<open>''''\<close> is not in the priority list, \<open>db\<close> and \<open>server\<close> are, and the group
  \<open>''''\<close> comes first, not last.
\<close>

theorem group_sort_order_counterexample:
  "map group (sortObserverBindingsByGroup ex_tags (ex_registry True) ex_observers) =
     ['''', ''db'', ''server''] \<and>
   '''' \<notin> set (groupsByOrder (options (ex_registry True))) \<and>
   ''db'' \<in> set (groupsByOrder (options (ex_registry True))) \<and>
   ''server'' \<in> set (groupsByOrder (options (ex_registry True)))"
  by (simp add: sortObserverBindingsByGroup_def getObserverGroup_def ex_tags_def ex_registry_def
      ex_observers_def ex_observer_def js_sort_def push_to_group_def falsy_def or_empty_def)

section \<open>The partition\<close>

lemma ex_groups:
  "sortObserverBindingsByGroup ex_tags (ex_registry par) ex_observers =
     [\<lparr>group = '''', bindings = [ex_observer ''C'' []]\<rparr>,
      \<lparr>group = ''db'', bindings = [ex_observer ''A'' [(''lifeCycleObserverGroup'', ''db'')]]\<rparr>,
      \<lparr>group = ''server'', bindings = [ex_observer ''B'' [(''lifeCycleObserverGroup'', ''server'')]]\<rparr>]"
  by (simp add: sortObserverBindingsByGroup_def getObserverGroup_def ex_tags_def ex_registry_def
      ex_observers_def ex_observer_def js_sort_def push_to_group_def falsy_def or_empty_def)

lemma ex_phases:
  "sortMiddlewareBindingsByPhase ex_middleware_registry ex_middlewares =
     [\<lparr>phase = ''log'', phase_bindings = [ex_middleware ''M3'' [(''phase'', ''log'')]]\<rparr>,
      \<lparr>phase = ''auth'', phase_bindings =
         [ex_middleware ''M1'' [(''phase'', ''auth''), (''path'', ''/api'')],
          ex_middleware ''M2'' [(''phase'', ''auth'')]]\<rparr>]"
  by (simp add: sortMiddlewareBindingsByPhase_def getMiddlewarePhase_def
      ex_middleware_registry_def ex_middlewares_def ex_middleware_def js_sort_def
      push_to_group_def or_empty_def)

text \<open>
  Claim C7. For every list of bindings, the partition step of
  \<open>sortObserverBindingsByGroup\<close> (and of \<open>sortMiddlewareBindingsByPhase\<close>) puts every
  binding in exactly one group: the group names are distinct, the bindings of a group are
  the bindings of the input that classify to its name, in input order (a filter of the
  input, never sorted again), every binding of the input is in one group and no other,
  and the groups together hold the bindings of the input, each as often as the input.
\<close>

theorem partition_in_registration_order:
  "distinct (map group (sortObserverBindingsByGroup ct this bs)) \<and>
   (\<forall>g \<in> set (sortObserverBindingsByGroup ct this bs).
      bindings g = filter (\<lambda>b. getObserverGroup ct this b = group g) bs) \<and>
   (\<forall>b \<in> set bs. \<exists>!g. g \<in> set (sortObserverBindingsByGroup ct this bs) \<and> b \<in> set (bindings g)) \<and>
   mset (concat (map bindings (sortObserverBindingsByGroup ct this bs))) = mset bs \<and>
   distinct (map phase (sortMiddlewareBindingsByPhase mw ms)) \<and>
   (\<forall>p \<in> set (sortMiddlewareBindingsByPhase mw ms).
      phase_bindings p = filter (\<lambda>b. getMiddlewarePhase b = phase p) ms) \<and>
   (\<forall>b \<in> set ms. \<exists>!p. p \<in> set (sortMiddlewareBindingsByPhase mw ms) \<and> b \<in> set (phase_bindings p)) \<and>
   mset (concat (map phase_bindings (sortMiddlewareBindingsByPhase mw ms))) = mset ms"
proof -
  let ?gs = "sortObserverBindingsByGroup ct this bs"
  let ?ps = "sortMiddlewareBindingsByPhase mw ms"
  let ?P = "groupsByOrder (options this)"
  let ?Q = "phasesByOrder (options_mw mw)"
  have gkeys: "distinct (map group ?gs)" "set (map group ?gs) = getObserverGroup ct this ` set bs"
    unfolding group_names using sorted_entries_keys [of "getObserverGroup ct this" ?P bs] by simp_all
  have pkeys: "distinct (map phase ?ps)" "set (map phase ?ps) = getMiddlewarePhase ` set ms"
    unfolding phase_names using sorted_entries_keys [of getMiddlewarePhase ?Q ms] by simp_all
  have gmem: "\<forall>g \<in> set ?gs. bindings g = filter (\<lambda>b. getObserverGroup ct this b = group g) bs"
    using group_members by blast
  have pmem: "\<forall>p \<in> set ?ps. phase_bindings p = filter (\<lambda>b. getMiddlewarePhase b = phase p) ms"
    using phase_members by blast
  have gone: "\<exists>!g. g \<in> set ?gs \<and> b \<in> set (bindings g)" if b: "b \<in> set bs" for b
  proof -
    from b gkeys(2) have "getObserverGroup ct this b \<in> set (map group ?gs)" by simp
    then obtain g where g: "g \<in> set ?gs" "group g = getObserverGroup ct this b" by auto
    with gmem b have in_g: "b \<in> set (bindings g)" by simp
    have "g' = g" if g': "g' \<in> set ?gs" "b \<in> set (bindings g')" for g'
    proof -
      from g' gmem have "group g' = getObserverGroup ct this b" by simp
      with g have same: "group g' = group g" by simp
      with g' g gmem have "bindings g' = bindings g" by simp
      with same show ?thesis by simp
    qed
    with g in_g show ?thesis by blast
  qed
  have pone: "\<exists>!p. p \<in> set ?ps \<and> b \<in> set (phase_bindings p)" if b: "b \<in> set ms" for b
  proof -
    from b pkeys(2) have "getMiddlewarePhase b \<in> set (map phase ?ps)" by simp
    then obtain p where p: "p \<in> set ?ps" "phase p = getMiddlewarePhase b" by auto
    with pmem b have in_p: "b \<in> set (phase_bindings p)" by simp
    have "p' = p" if p': "p' \<in> set ?ps" "b \<in> set (phase_bindings p')" for p'
    proof -
      from p' pmem have "phase p' = getMiddlewarePhase b" by simp
      with p have same: "phase p' = phase p" by simp
      with p' p pmem have "phase_bindings p' = phase_bindings p" by simp
      with same show ?thesis by simp
    qed
    with p in_p show ?thesis by blast
  qed
  have "map bindings ?gs = map snd (map (\<lambda>g. (group g, bindings g)) ?gs)" by (simp add: comp_def)
  then have gm: "mset (concat (map bindings ?gs)) = mset bs"
    unfolding sortObserverBindingsByGroup_entries by (simp add: sorted_entries_mset)
  have "map phase_bindings ?ps = map snd (map (\<lambda>p. (phase p, phase_bindings p)) ?ps)" by (simp add: comp_def)
  then have pm: "mset (concat (map phase_bindings ?ps)) = mset ms"
    unfolding sortMiddlewareBindingsByPhase_entries by (simp add: sorted_entries_mset)
  from gkeys(1) gmem gone gm pkeys(1) pmem pone pm show ?thesis by blast
qed

theorem partition_in_registration_order_witness:
  "map bindings (sortObserverBindingsByGroup ex_tags (ex_registry True) ex_observers) =
     [[ex_observer ''C'' []],
      [ex_observer ''A'' [(''lifeCycleObserverGroup'', ''db'')]],
      [ex_observer ''B'' [(''lifeCycleObserverGroup'', ''server'')]]] \<and>
   map phase_bindings (sortMiddlewareBindingsByPhase ex_middleware_registry ex_middlewares) =
     [[ex_middleware ''M3'' [(''phase'', ''log'')]],
      [ex_middleware ''M1'' [(''phase'', ''auth''), (''path'', ''/api'')],
       ex_middleware ''M2'' [(''phase'', ''auth'')]]] \<and>
   mset (concat (map bindings (sortObserverBindingsByGroup ex_tags (ex_registry True) ex_observers))) =
     mset ex_observers \<and>
   mset (concat (map phase_bindings (sortMiddlewareBindingsByPhase ex_middleware_registry ex_middlewares))) =
     mset ex_middlewares"
proof -
  note part = partition_in_registration_order [of ex_tags "ex_registry True" ex_observers
      ex_middleware_registry ex_middlewares]
  have g: "map bindings (sortObserverBindingsByGroup ex_tags (ex_registry True) ex_observers) =
     [[ex_observer ''C'' []],
      [ex_observer ''A'' [(''lifeCycleObserverGroup'', ''db'')]],
      [ex_observer ''B'' [(''lifeCycleObserverGroup'', ''server'')]]]"
    by (simp add: ex_groups)
  have p: "map phase_bindings (sortMiddlewareBindingsByPhase ex_middleware_registry ex_middlewares) =
     [[ex_middleware ''M3'' [(''phase'', ''log'')]],
      [ex_middleware ''M1'' [(''phase'', ''auth''), (''path'', ''/api'')],
       ex_middleware ''M2'' [(''phase'', ''auth'')]]]"
    by (simp add: ex_phases)
  from part have
    "mset (concat (map bindings (sortObserverBindingsByGroup ex_tags (ex_registry True) ex_observers))) =
       mset ex_observers"
    "mset (concat (map phase_bindings (sortMiddlewareBindingsByPhase ex_middleware_registry ex_middlewares))) =
       mset ex_middlewares"
    by blast+
  with g p show ?thesis by blast
qed

section \<open>The classifier\<close>

lemma find_first:
  "i < length xs \<Longrightarrow> Q (xs ! i) \<Longrightarrow> (\<forall>j<i. \<not> Q (xs ! j)) \<Longrightarrow> List.find Q xs = Some (xs ! i)"
  by (auto simp: find_Some_iff)

lemma find_marker_nonempty_or_empty:
  "or_empty (List.find (\<lambda>g. m g = Some g) P) =
     (case List.find (\<lambda>g. m g = Some g) P of None \<Rightarrow> '''' | Some g \<Rightarrow> g)"
  by (auto simp: or_empty_def split: option.splits)

text \<open>
  Claim C6, as the code has it. \<open>getObserverGroup\<close> returns the value of the explicit
  group tag when the tag map has one that is not the empty string; otherwise (the tag is
  missing or empty) the first name of the priority list that the binding carries as a tag
  whose key and value are that name; otherwise the empty string. A binding with no tags
  classifies to the empty string.
\<close>

theorem getObserverGroup_rule:
  "(\<forall>v. tagMap b (LIFE_CYCLE_OBSERVER_GROUP ct) = Some v \<and> v \<noteq> '''' \<longrightarrow>
       getObserverGroup ct this b = v) \<and>
   (tagMap b (LIFE_CYCLE_OBSERVER_GROUP ct) = None \<or> tagMap b (LIFE_CYCLE_OBSERVER_GROUP ct) = Some '''' \<longrightarrow>
      (\<forall>i. i < length (groupsByOrder (options this)) \<and>
           tagMap b (groupsByOrder (options this) ! i) = Some (groupsByOrder (options this) ! i) \<and>
           (\<forall>j<i. tagMap b (groupsByOrder (options this) ! j) \<noteq> Some (groupsByOrder (options this) ! j)) \<longrightarrow>
           getObserverGroup ct this b = groupsByOrder (options this) ! i) \<and>
      ((\<forall>g \<in> set (groupsByOrder (options this)). tagMap b g \<noteq> Some g) \<longrightarrow>
           getObserverGroup ct this b = '''')) \<and>
   (tagMap b = Map.empty \<longrightarrow> getObserverGroup ct this b = '''')"
proof -
  let ?P = "groupsByOrder (options this)"
  let ?t = "tagMap b (LIFE_CYCLE_OBSERVER_GROUP ct)"
  let ?Q = "\<lambda>g. tagMap b g = Some g"
  have explicit: "getObserverGroup ct this b = v" if "?t = Some v" "v \<noteq> ''''" for v
    using that by (simp add: getObserverGroup_def falsy_def or_empty_def)
  have fallback: "getObserverGroup ct this b = (case List.find ?Q ?P of None \<Rightarrow> '''' | Some g \<Rightarrow> g)"
    if "?t = None \<or> ?t = Some ''''"
    using that by (auto simp: getObserverGroup_def falsy_def find_marker_nonempty_or_empty)
  have marker: "getObserverGroup ct this b = ?P ! i"
    if "?t = None \<or> ?t = Some ''''" "i < length ?P" "?Q (?P ! i)" "\<forall>j<i. \<not> ?Q (?P ! j)" for i
    using fallback [OF that(1)] find_first [of i ?P ?Q, OF that(2) that(3) that(4)] by simp
  have none: "getObserverGroup ct this b = ''''"
    if "?t = None \<or> ?t = Some ''''" "\<forall>g \<in> set ?P. \<not> ?Q g"
  proof -
    from that(2) have "List.find ?Q ?P = None" by (simp add: find_None_iff)
    with fallback [OF that(1)] show ?thesis by simp
  qed
  have untagged: "getObserverGroup ct this b = ''''" if "tagMap b = Map.empty"
    using that none by simp
  from explicit marker none untagged show ?thesis by blast
qed

theorem getObserverGroup_rule_witness:
  "getObserverGroup ex_tags (ex_registry True)
     (ex_observer ''A'' [(''lifeCycleObserverGroup'', ''db'')]) = ''db'' \<and>
   getObserverGroup ex_tags (ex_registry True)
     (ex_observer ''S'' [(''server'', ''server'')]) = ''server'' \<and>
   getObserverGroup ex_tags (ex_registry True) (ex_observer ''C'' []) = '''' \<and>
   getObserverGroup ex_tags (ex_registry True)
     \<lparr>key = ''N'', btype = CONSTANT, scope = SINGLETON, tagMap = Map.empty\<rparr> = ''''"
proof -
  let ?reg = "ex_registry True"
  have P: "groupsByOrder (options ?reg) = [''db'', ''server'']" by (simp add: ex_registry_def)
  have a: "getObserverGroup ex_tags ?reg (ex_observer ''A'' [(''lifeCycleObserverGroup'', ''db'')]) = ''db''"
    using getObserverGroup_rule [of "ex_observer ''A'' [(''lifeCycleObserverGroup'', ''db'')]" ex_tags ?reg]
    by (simp add: ex_observer_def ex_tags_def)
  have s: "getObserverGroup ex_tags ?reg (ex_observer ''S'' [(''server'', ''server'')]) = ''server''"
  proof -
    note r = getObserverGroup_rule [of "ex_observer ''S'' [(''server'', ''server'')]" ex_tags ?reg]
    have t: "tagMap (ex_observer ''S'' [(''server'', ''server'')]) (LIFE_CYCLE_OBSERVER_GROUP ex_tags) = None"
      by (simp add: ex_observer_def ex_tags_def)
    from r t have "\<forall>i. i < length (groupsByOrder (options ?reg)) \<and>
           tagMap (ex_observer ''S'' [(''server'', ''server'')]) (groupsByOrder (options ?reg) ! i) = Some (groupsByOrder (options ?reg) ! i) \<and>
           (\<forall>j<i. tagMap (ex_observer ''S'' [(''server'', ''server'')]) (groupsByOrder (options ?reg) ! j) \<noteq> Some (groupsByOrder (options ?reg) ! j)) \<longrightarrow>
           getObserverGroup ex_tags ?reg (ex_observer ''S'' [(''server'', ''server'')]) = groupsByOrder (options ?reg) ! i"
      by blast
    from this [rule_format, of 1] show ?thesis
      unfolding P by (simp add: ex_observer_def less_Suc_eq)
  qed
  have c: "getObserverGroup ex_tags ?reg (ex_observer ''C'' []) = ''''"
    using getObserverGroup_rule [of "ex_observer ''C'' []" ex_tags ?reg]
    unfolding P by (simp add: ex_observer_def ex_tags_def)
  have n: "getObserverGroup ex_tags ?reg
      \<lparr>key = ''N'', btype = CONSTANT, scope = SINGLETON, tagMap = Map.empty\<rparr> = ''''"
    using getObserverGroup_rule [of "\<lparr>key = ''N'', btype = CONSTANT, scope = SINGLETON, tagMap = Map.empty\<rparr>" ex_tags ?reg]
    by simp
  from a s c n show ?thesis by blast
qed

text \<open>
  The claim as it is stated fails for a binding whose explicit group tag is the empty
  string: the tag map contains the tag, the classifier does not return its value, it
  falls back to the marker tag \<open>server\<close>.
\<close>

theorem getObserverGroup_counterexample:
  "tagMap (ex_observer ''E'' [(''lifeCycleObserverGroup'', ''''), (''server'', ''server'')])
     (LIFE_CYCLE_OBSERVER_GROUP ex_tags) = Some '''' \<and>
   getObserverGroup ex_tags (ex_registry True)
     (ex_observer ''E'' [(''lifeCycleObserverGroup'', ''''), (''server'', ''server'')]) = ''server''"
  by (simp add: getObserverGroup_def ex_observer_def ex_tags_def ex_registry_def falsy_def or_empty_def)

section \<open>Phases against groups\<close>

lemma grouped_cong:
  "(\<And>b. b \<in> set bs \<Longrightarrow> c1 b = c2 b) \<Longrightarrow> grouped c1 bs = grouped c2 bs"
  unfolding grouped_def by (rule fold_cong) auto

lemma classify_agree:
  assumes tag: "LIFE_CYCLE_OBSERVER_GROUP ct = ''phase''"
    and nomark: "tagMap b ''phase'' = None \<or> tagMap b ''phase'' = Some '''' \<longrightarrow>
       (\<forall>g \<in> set (groupsByOrder (options this)). g \<noteq> '''' \<longrightarrow> tagMap b g \<noteq> Some g)"
  shows "getObserverGroup ct this b = getMiddlewarePhase b"
proof (cases "tagMap b ''phase'' = None \<or> tagMap b ''phase'' = Some ''''")
  case True
  let ?f = "List.find (\<lambda>g. tagMap b g = Some g) (groupsByOrder (options this))"
  have "or_empty ?f = ''''"
  proof (cases ?f)
    case None
    then show ?thesis by (simp add: or_empty_def)
  next
    case (Some g)
    then have "g \<in> set (groupsByOrder (options this))" "tagMap b g = Some g"
      by (auto simp: find_Some_iff)
    with nomark True have "g = ''''" by blast
    with Some show ?thesis by (simp add: or_empty_def)
  qed
  with True tag show ?thesis
    by (auto simp: getObserverGroup_def getMiddlewarePhase_def falsy_def or_empty_def)
next
  case False
  with tag show ?thesis
    by (auto simp: getObserverGroup_def getMiddlewarePhase_def falsy_def)
qed

text \<open>
  Claim C8, as the code has it. The middleware sorter partitions and sorts as the life
  cycle sorter does, but it classifies by the tag \<open>phase\<close> alone, without the fall
  back to a marker tag of the priority list. With the tag key \<open>phase\<close> for the group
  tag and the same priority list, phases and groups are equal, names and members in
  order, for every list of bindings in which a binding whose \<open>phase\<close> tag is missing or
  empty carries no marker tag for a non-empty name of the priority list.
\<close>

theorem phases_sorted_as_groups:
  assumes "LIFE_CYCLE_OBSERVER_GROUP ct = ''phase''"
    and "groupsByOrder (options this) = phasesByOrder (options_mw mw)"
    and "\<forall>b \<in> set bs. tagMap b ''phase'' = None \<or> tagMap b ''phase'' = Some '''' \<longrightarrow>
           (\<forall>g \<in> set (phasesByOrder (options_mw mw)). g \<noteq> '''' \<longrightarrow> tagMap b g \<noteq> Some g)"
  shows "map (\<lambda>p. (phase p, phase_bindings p)) (sortMiddlewareBindingsByPhase mw bs) =
         map (\<lambda>g. (group g, bindings g)) (sortObserverBindingsByGroup ct this bs)"
proof -
  have "getObserverGroup ct this b = getMiddlewarePhase b" if "b \<in> set bs" for b
    using assms that by (intro classify_agree) auto
  then have "grouped (getObserverGroup ct this) bs = grouped getMiddlewarePhase bs"
    by (rule grouped_cong)
  then show ?thesis
    unfolding sortMiddlewareBindingsByPhase_entries sortObserverBindingsByGroup_entries
    by (simp add: sorted_entries_def assms(2))
qed

theorem phases_sorted_as_groups_witness:
  "map (\<lambda>p. (phase p, phase_bindings p))
     (sortMiddlewareBindingsByPhase ex_middleware_registry ex_middlewares) =
   map (\<lambda>g. (group g, bindings g))
     (sortObserverBindingsByGroup ex_phase_tags ex_phase_registry ex_middlewares) \<and>
   map phase (sortMiddlewareBindingsByPhase ex_middleware_registry ex_middlewares) =
     [''log'', ''auth'']"
proof -
  have 1: "LIFE_CYCLE_OBSERVER_GROUP ex_phase_tags = ''phase''"
    by (simp add: ex_phase_tags_def)
  have 2: "groupsByOrder (options ex_phase_registry) = phasesByOrder (options_mw ex_middleware_registry)"
    by (simp add: ex_phase_registry_def ex_middleware_registry_def)
  have 3: "\<forall>b \<in> set ex_middlewares. tagMap b ''phase'' = None \<or> tagMap b ''phase'' = Some '''' \<longrightarrow>
      (\<forall>g \<in> set (phasesByOrder (options_mw ex_middleware_registry)). g \<noteq> '''' \<longrightarrow> tagMap b g \<noteq> Some g)"
    by (simp add: ex_middlewares_def ex_middleware_def)
  from phases_sorted_as_groups [OF 1 2 3] show ?thesis
    by (simp add: ex_phases)
qed

text \<open>
  The claim as it is stated fails for a binding that carries the marker tag \<open>auth\<close>
  and no \<open>phase\<close> tag: the middleware sorter puts it in the phase \<open>''''\<close>, the life
  cycle sorter under the renaming in the group \<open>auth\<close>.
\<close>

theorem phases_sorted_as_groups_counterexample:
  "map phase (sortMiddlewareBindingsByPhase ex_middleware_registry
     [ex_middleware ''M'' [(''auth'', ''auth'')]]) = [''''] \<and>
   map group (sortObserverBindingsByGroup ex_phase_tags ex_phase_registry
     [ex_middleware ''M'' [(''auth'', ''auth'')]]) = [''auth'']"
  by (simp add: sortMiddlewareBindingsByPhase_def getMiddlewarePhase_def
      sortObserverBindingsByGroup_def getObserverGroup_def ex_phase_tags_def ex_phase_registry_def
      ex_middleware_registry_def ex_middleware_def js_sort_def push_to_group_def falsy_def
      or_empty_def)

section \<open>Defaults\<close>

lemma notifyMembers_parallel:
  "parallel (options this) = Some True \<Longrightarrow>
     notifyMembers this event bs notifiers called =
       (Inr (notifiers @ map (\<lambda>b. notifyObserver this b event) bs), called @ map key bs)"
  by (induction bs arbitrary: notifiers called) simp_all

lemma notifyObserverGroup_parallel:
  "parallel (options this) = Some True \<Longrightarrow>
     notifyObserverGroup first this g event =
       (promise_all first (map (\<lambda>b. notifyObserver this b event) (bindings g)), map key (bindings g))"
  by (simp add: notifyObserverGroup_def notifyMembers_parallel)

lemma precedes_empty: "precedes [] a b \<longleftrightarrow> a < b"
  by (simp add: precedes_def)

text \<open>
  Claim C10. Constructed without injected options, the life cycle observer registry has
  \<open>parallel = true\<close> and \<open>groupsByOrder = ['server']\<close>, and the middleware registry
  has \<open>parallel = false\<close> and \<open>phasesByOrder = []\<close>. So the observers of a group are
  all started and joined by \<^verbatim>\<open>Promise.all\<close>, and the middleware phases come out in
  strictly ascending order of their names.
\<close>

theorem default_options:
  "options (new_LifeCycleObserverRegistry c None) =
     \<lparr>groupsByOrder = [''server''], parallel = Some True\<rparr> \<and>
   options_mw (new_MiddlewareRegistry v None) =
     \<lparr>phasesByOrder = [], parallel_mw = Some False\<rparr> \<and>
   notifyObserverGroup first (new_LifeCycleObserverRegistry c None) g event =
     (promise_all first
        (map (\<lambda>b. notifyObserver (new_LifeCycleObserverRegistry c None) b event) (bindings g)),
      map key (bindings g)) \<and>
   sorted_wrt (<) (map phase (sortMiddlewareBindingsByPhase (new_MiddlewareRegistry v None) ms))"
proof -
  have o: "options (new_LifeCycleObserverRegistry c None) =
      \<lparr>groupsByOrder = [''server''], parallel = Some True\<rparr>"
    by (simp add: new_LifeCycleObserverRegistry_def default_LifeCycleObserverOptions_def)
  have m: "options_mw (new_MiddlewareRegistry v None) =
      \<lparr>phasesByOrder = [], parallel_mw = Some False\<rparr>"
    by (simp add: new_MiddlewareRegistry_def default_MiddlewareOptions_def)
  have p: "parallel (options (new_LifeCycleObserverRegistry c None)) = Some True"
    by (simp add: o)
  have s: "sorted_wrt (<) (map phase (sortMiddlewareBindingsByPhase (new_MiddlewareRegistry v None) ms))"
    using sorted_entries_precedes [of "[]" getMiddlewarePhase ms]
    by (simp add: phase_names m precedes_empty [abs_def])
  from o m notifyObserverGroup_parallel [OF p] s show ?thesis by blast
qed

theorem default_options_witness:
  "map phase (sortMiddlewareBindingsByPhase (new_MiddlewareRegistry ex_view None) ex_middlewares) =
     [''auth'', ''log''] \<and>
   sorted_wrt (<) [''auth'', ''log''] \<and>
   parallel (options (new_LifeCycleObserverRegistry ex_context None)) = Some True"
proof -
  have v: "map phase (sortMiddlewareBindingsByPhase (new_MiddlewareRegistry ex_view None) ex_middlewares) =
      [''auth'', ''log'']"
    by (simp add: sortMiddlewareBindingsByPhase_def getMiddlewarePhase_def
        new_MiddlewareRegistry_def default_MiddlewareOptions_def ex_middlewares_def ex_middleware_def
        js_sort_def push_to_group_def or_empty_def)
  note d = default_options [of ex_context ex_view hd "\<lparr>group = ''g'', bindings = []\<rparr>"
      "''start''" ex_middlewares]
  from d have "sorted_wrt (<)
      (map phase (sortMiddlewareBindingsByPhase (new_MiddlewareRegistry ex_view None) ex_middlewares))"
    by blast
  then have s: "sorted_wrt (<) [''auth'', ''log'']" unfolding v .
  from d have "options (new_LifeCycleObserverRegistry ex_context None) =
      \<lparr>groupsByOrder = [''server''], parallel = Some True\<rparr>"
    by blast
  then have p: "parallel (options (new_LifeCycleObserverRegistry ex_context None)) = Some True"
    by simp
  from v s p show ?thesis by blast
qed

section \<open>Notification\<close>

lemma notifyEachGroup_plan:
  "notifyEachGroup first this event gs = notifyPlan first this (map (Pair event) gs)"
  by (induction gs) (auto split: prod.splits sum.splits)

lemma notifyPlan_append:
  "notifyPlan first this (xs @ ys) =
     (case notifyPlan first this xs of
        (Inl e, t) \<Rightarrow> (Inl e, t)
      | (Inr u, t) \<Rightarrow> (case notifyPlan first this ys of (r, t') \<Rightarrow> (r, t @ t')))"
  by (induction xs) (auto split: prod.splits sum.splits)

lemma notifyGroups_plan:
  "notifyGroups first this events groups = notifyPlan first this (List.product events groups)"
  by (induction events) (auto simp: notifyEachGroup_plan notifyPlan_append split: prod.splits sum.splits)

lemma notifyPlan_all_ok:
  "(\<forall>c \<in> set p. fst (notifyObserverGroup first this (snd c) (fst c)) = Inr ()) \<Longrightarrow>
     notifyPlan first this p = (Inr (), map (entry_of first this) p)"
  by (induction p) (auto simp: entry_of_def split: prod.splits sum.splits)

lemma notifyPlan_ok_all:
  "fst (notifyPlan first this p) = Inr () \<Longrightarrow>
     (\<forall>c \<in> set p. fst (notifyObserverGroup first this (snd c) (fst c)) = Inr ())"
proof (induction p)
  case Nil
  show ?case by simp
next
  case (Cons c p)
  obtain ev g where c: "c = (ev, g)" by (cases c)
  obtain r called where n: "notifyObserverGroup first this g ev = (r, called)"
    by (cases "notifyObserverGroup first this g ev")
  show ?case
  proof (cases r)
    case (Inl e)
    with Cons.prems c n show ?thesis by simp
  next
    case (Inr u)
    with Cons.prems c n have "fst (notifyPlan first this p) = Inr ()"
      by (simp split: prod.splits)
    with Cons.IH Inr c n show ?thesis by simp
  qed
qed

lemma notifyPlan_first_failure:
  assumes k: "k < length p"
    and before: "\<forall>j<k. fst (notifyObserverGroup first this (snd (p ! j)) (fst (p ! j))) = Inr ()"
    and fails: "fst (notifyObserverGroup first this (snd (p ! k)) (fst (p ! k))) = Inl e"
  shows "notifyPlan first this p = (Inl e, map (entry_of first this) (take (Suc k) p))"
proof -
  have split: "p = take k p @ (p ! k) # drop (Suc k) p"
    using k by (simp add: id_take_nth_drop)
  have "\<forall>c \<in> set (take k p). fst (notifyObserverGroup first this (snd c) (fst c)) = Inr ()"
    using before k by (force simp: in_set_conv_nth)
  then have pre: "notifyPlan first this (take k p) = (Inr (), map (entry_of first this) (take k p))"
    by (rule notifyPlan_all_ok)
  obtain ev g where c: "p ! k = (ev, g)" by (cases "p ! k")
  from fails c have "notifyPlan first this ((p ! k) # drop (Suc k) p) = (Inl e, [entry_of first this (p ! k)])"
    by (auto simp: entry_of_def split: prod.splits sum.splits)
  with pre have "notifyPlan first this (take k p @ (p ! k) # drop (Suc k) p) =
      (Inl e, map (entry_of first this) (take k p) @ [entry_of first this (p ! k)])"
    by (simp add: notifyPlan_append)
  with split k show ?thesis by (simp add: take_Suc_conv_app_nth)
qed

lemma promise_all_ok: "promise_all first rs = Inr () \<longleftrightarrow> (\<forall>r \<in> set rs. r = Inr ())"
proof (induction rs)
  case Nil
  show ?case by (simp add: promise_all_def)
next
  case (Cons r rs)
  show ?case
  proof (cases r)
    case (Inl e)
    then show ?thesis by (simp add: promise_all_def)
  next
    case (Inr u)
    with Cons show ?thesis by (simp add: promise_all_def)
  qed
qed

lemma promise_all_rejects:
  "promise_all first rs \<noteq> Inr () \<Longrightarrow> promise_all first rs = Inl (first [e. Inl e \<leftarrow> rs])"
  unfolding promise_all_def by (cases "[e. Inl e \<leftarrow> rs]") simp_all

lemma notifyMembers_all_ok:
  "parallel (options this) \<noteq> Some True \<Longrightarrow>
   (\<forall>b \<in> set bs. notifyObserver this b event = Inr ()) \<Longrightarrow>
     notifyMembers this event bs notifiers called = (Inr notifiers, called @ map key bs)"
  by (induction bs arbitrary: notifiers called) simp_all

lemma notifyMembers_first_failure:
  "parallel (options this) \<noteq> Some True \<Longrightarrow>
   (\<forall>x \<in> set pre. notifyObserver this x event = Inr ()) \<Longrightarrow>
   notifyObserver this b event = Inl e \<Longrightarrow>
     notifyMembers this event (pre @ b # rest) notifiers called =
       (Inl e, called @ map key pre @ [key b])"
  by (induction pre arbitrary: notifiers called) simp_all

lemma notifyObserverGroup_all_ok:
  "parallel (options this) \<noteq> Some True \<Longrightarrow>
   (\<forall>b \<in> set (bindings g). notifyObserver this b event = Inr ()) \<Longrightarrow>
     notifyObserverGroup first this g event = (Inr (), map key (bindings g))"
  by (simp add: notifyObserverGroup_def notifyMembers_all_ok)

lemma notifyObserverGroup_first_failure:
  "parallel (options this) \<noteq> Some True \<Longrightarrow>
   bindings g = pre @ b # rest \<Longrightarrow>
   (\<forall>x \<in> set pre. notifyObserver this x event = Inr ()) \<Longrightarrow>
   notifyObserver this b event = Inl e \<Longrightarrow>
     notifyObserverGroup first this g event = (Inl e, map key pre @ [key b])"
  by (simp add: notifyObserverGroup_def notifyMembers_first_failure)

lemma first_failing_member:
  "\<not> (\<forall>b \<in> set bs. notifyObserver this b event = Inr ()) \<Longrightarrow>
     \<exists>pre b rest e. bs = pre @ b # rest \<and>
       (\<forall>x \<in> set pre. notifyObserver this x event = Inr ()) \<and> notifyObserver this b event = Inl e"
proof (induction bs)
  case Nil
  then show ?case by simp
next
  case (Cons b bs)
  show ?case
  proof (cases "notifyObserver this b event")
    case (Inl e)
    then show ?thesis
      by (intro exI [of _ "[]"] exI [of _ b] exI [of _ bs] exI [of _ e]) simp
  next
    case (Inr u)
    with Cons.prems have "\<not> (\<forall>x \<in> set bs. notifyObserver this x event = Inr ())" by simp
    from Cons.IH [OF this] obtain pre c rest e where
      bs: "bs = pre @ c # rest" and pre: "\<forall>x \<in> set pre. notifyObserver this x event = Inr ()"
      and c: "notifyObserver this c event = Inl e" by blast
    from bs pre c Inr show ?thesis
      by (intro exI [of _ "b # pre"] exI [of _ c] exI [of _ rest] exI [of _ e]) simp
  qed
qed

lemma notifyObserverGroup_ok_iff:
  "fst (notifyObserverGroup first this g event) = Inr () \<longleftrightarrow>
     (\<forall>b \<in> set (bindings g). notifyObserver this b event = Inr ())"
proof (cases "parallel (options this) = Some True")
  case True
  then show ?thesis by (simp add: notifyObserverGroup_parallel promise_all_ok)
next
  case False
  show ?thesis
  proof (cases "\<forall>b \<in> set (bindings g). notifyObserver this b event = Inr ()")
    case True
    with False show ?thesis by (simp add: notifyObserverGroup_all_ok)
  next
    case nok: False
    from first_failing_member [OF nok] obtain pre b rest e where
      "bindings g = pre @ b # rest" "\<forall>x \<in> set pre. notifyObserver this x event = Inr ()"
      "notifyObserver this b event = Inl e" by blast
    from notifyObserverGroup_first_failure [OF False this] nok show ?thesis by simp
  qed
qed

lemma notifyObserverGroup_ok_called:
  "fst (notifyObserverGroup first this g event) = Inr () \<Longrightarrow>
     snd (notifyObserverGroup first this g event) = map key (bindings g)"
proof (cases "parallel (options this) = Some True")
  case True
  then show ?thesis by (simp add: notifyObserverGroup_parallel)
next
  case False
  assume "fst (notifyObserverGroup first this g event) = Inr ()"
  then have "\<forall>b \<in> set (bindings g). notifyObserver this b event = Inr ()"
    by (simp add: notifyObserverGroup_ok_iff)
  with False show ?thesis by (simp add: notifyObserverGroup_all_ok)
qed

lemma map_product:
  "map f (List.product xs ys) = concat (map (\<lambda>x. map (\<lambda>y. f (x, y)) ys) xs)"
  by (induction xs) simp_all

lemma entry_of_ok:
  "fst (notifyObserverGroup first this (snd c) (fst c)) = Inr () \<Longrightarrow>
     entry_of first this c = (fst c, group (snd c), map key (bindings (snd c)))"
  by (simp add: entry_of_def notifyObserverGroup_ok_called)

lemma notifyGroups_success:
  assumes "fst (notifyGroups first this events groups) = Inr ()"
  shows "snd (notifyGroups first this events groups) =
     concat (map (\<lambda>ev. map (\<lambda>g. (ev, group g, map key (bindings g))) groups) events)"
proof -
  let ?p = "List.product events groups"
  from assms have ok: "\<forall>c \<in> set ?p. fst (notifyObserverGroup first this (snd c) (fst c)) = Inr ()"
    unfolding notifyGroups_plan by (rule notifyPlan_ok_all)
  then have "snd (notifyGroups first this events groups) = map (entry_of first this) ?p"
    by (simp add: notifyGroups_plan notifyPlan_all_ok)
  also have "\<dots> = map (\<lambda>c. (fst c, group (snd c), map key (bindings (snd c)))) ?p"
    using ok by (intro map_cong refl entry_of_ok) blast
  also have "\<dots> = concat (map (\<lambda>ev. map (\<lambda>g. (ev, group g, map key (bindings g))) groups) events)"
    by (simp add: map_product)
  finally show ?thesis .
qed

lemma notifyPlan_follows_plan:
  "map (\<lambda>x. (fst x, fst (snd x))) (snd (notifyPlan first this p)) =
     take (length (snd (notifyPlan first this p))) (map (\<lambda>c. (fst c, group (snd c))) p)"
proof (induction p)
  case Nil
  show ?case by simp
next
  case (Cons c p)
  obtain ev g where c: "c = (ev, g)" by (cases c)
  obtain r called where n: "notifyObserverGroup first this g ev = (r, called)"
    by (cases "notifyObserverGroup first this g ev")
  show ?case
  proof (cases r)
    case (Inl e)
    with c n show ?thesis by simp
  next
    case (Inr u)
    with c n Cons show ?thesis by (auto split: prod.splits)
  qed
qed

lemma notifyGroups_follows_plan:
  "map (\<lambda>x. (fst x, fst (snd x))) (snd (notifyGroups first this events groups)) =
     take (length (snd (notifyGroups first this events groups)))
       (concat (map (\<lambda>ev. map (\<lambda>g. (ev, group g)) groups) events))"
  unfolding notifyGroups_plan notifyPlan_follows_plan by (simp add: map_product)

lemma filter_event_concat:
  "distinct events \<Longrightarrow> e \<in> set events \<Longrightarrow>
     filter (\<lambda>x. fst x = e) (concat (map (\<lambda>ev. map (\<lambda>g. (ev, f g)) groups) events)) =
       map (\<lambda>g. (e, f g)) groups"
proof (induction events)
  case Nil
  then show ?case by simp
next
  case (Cons ev events)
  have other: "filter (\<lambda>x. fst x = e) (map (\<lambda>g. (ev', f g)) groups) = []" if "ev' \<noteq> e" for ev'
    using that by (induction groups) auto
  have same: "filter (\<lambda>x. fst x = e) (map (\<lambda>g. (e, f g)) groups) = map (\<lambda>g. (e, f g)) groups"
    by (induction groups) auto
  have none: "filter (\<lambda>x. fst x = e) (concat (map (\<lambda>ev. map (\<lambda>g. (ev, f g)) groups) events)) = []"
    if "e \<notin> set events"
    using that by (induction events) (auto simp: other)
  show ?case
  proof (cases "ev = e")
    case True
    with Cons.prems have "e \<notin> set events" by simp
    with True same none show ?thesis by simp
  next
    case False
    with Cons show ?thesis by (simp add: other)
  qed
qed

lemma notifyPlan_length_first_failure:
  assumes k: "k < length p"
    and before: "\<forall>j<k. fst (notifyObserverGroup first this (snd (p ! j)) (fst (p ! j))) = Inr ()"
    and fails: "fst (notifyObserverGroup first this (snd (p ! k)) (fst (p ! k))) \<noteq> Inr ()"
  shows "fst (notifyPlan first this p) = fst (notifyObserverGroup first this (snd (p ! k)) (fst (p ! k)))"
    and "snd (notifyPlan first this p) = map (entry_of first this) (take (Suc k) p)"
proof -
  from fails obtain e where e: "fst (notifyObserverGroup first this (snd (p ! k)) (fst (p ! k))) = Inl e"
    by (cases "fst (notifyObserverGroup first this (snd (p ! k)) (fst (p ! k)))") auto
  from notifyPlan_first_failure [OF k before e] e
  show "fst (notifyPlan first this p) = fst (notifyObserverGroup first this (snd (p ! k)) (fst (p ! k)))"
    and "snd (notifyPlan first this p) = map (entry_of first this) (take (Suc k) p)"
    by simp_all
qed

lemma ex_found: "findObserverBindings ex_tags (ex_registry par) = ex_observers"
  by (simp add: findObserverBindings_def ex_registry_def ex_context_def ex_observers_def
      ex_observer_def ex_tags_def)

lemma ex_failing_found: "findObserverBindings ex_tags (ex_failing_registry par) = ex_observers"
  by (simp add: findObserverBindings_def ex_failing_registry_def ex_failing_context_def
      ex_observers_def ex_observer_def ex_tags_def)

lemma ex_failing_groups:
  "sortObserverBindingsByGroup ex_tags (ex_failing_registry par) ex_observers =
     [\<lparr>group = '''', bindings = [ex_observer ''C'' []]\<rparr>,
      \<lparr>group = ''db'', bindings = [ex_observer ''A'' [(''lifeCycleObserverGroup'', ''db'')]]\<rparr>,
      \<lparr>group = ''server'', bindings = [ex_observer ''B'' [(''lifeCycleObserverGroup'', ''server'')]]\<rparr>]"
  by (simp add: sortObserverBindingsByGroup_def getObserverGroup_def ex_tags_def
      ex_failing_registry_def ex_observers_def ex_observer_def js_sort_def push_to_group_def
      falsy_def or_empty_def)

lemma ex_order:
  "getObserverGroupsByOrder ex_tags (ex_registry par) =
     [\<lparr>group = [], bindings = [ex_observer ''C'' []]\<rparr>,
      \<lparr>group = ''db'', bindings = [ex_observer ''A'' [(''lifeCycleObserverGroup'', ''db'')]]\<rparr>,
      \<lparr>group = ''server'', bindings = [ex_observer ''B'' [(''lifeCycleObserverGroup'', ''server'')]]\<rparr>]"
  by (simp add: getObserverGroupsByOrder_def ex_found ex_groups)

lemma ex_failing_order:
  "getObserverGroupsByOrder ex_tags (ex_failing_registry par) =
     [\<lparr>group = [], bindings = [ex_observer ''C'' []]\<rparr>,
      \<lparr>group = ''db'', bindings = [ex_observer ''A'' [(''lifeCycleObserverGroup'', ''db'')]]\<rparr>,
      \<lparr>group = ''server'', bindings = [ex_observer ''B'' [(''lifeCycleObserverGroup'', ''server'')]]\<rparr>]"
  by (simp add: getObserverGroupsByOrder_def ex_failing_found ex_failing_groups)

lemma ex_parallel: "parallel (options (ex_registry par)) = Some par"
  by (simp add: ex_registry_def)

lemma ex_get: "get (ctx (ex_registry par)) k = Inr (\<lambda>event. Some Resolved)"
  by (simp add: ex_registry_def ex_context_def)

lemma ex_failing_parallel: "parallel (options (ex_failing_registry par)) = Some par"
  by (simp add: ex_failing_registry_def)

lemma ex_failing_get:
  "get (ctx (ex_failing_registry par)) k =
     (if k = ''B''
      then Inr (\<lambda>event. if event = ''start'' then Some (Rejected 7) else Some Resolved)
      else Inr (\<lambda>event. Some Resolved))"
  by (simp add: ex_failing_registry_def ex_failing_context_def)

lemma ex_start:
  "start hd ex_tags (ex_registry par) =
     (Inr (),
      [(''preStart'', '''', [''C'']), (''preStart'', ''db'', [''A'']), (''preStart'', ''server'', [''B'']),
       (''start'', '''', [''C'']), (''start'', ''db'', [''A'']), (''start'', ''server'', [''B'']),
       (''postStart'', '''', [''C'']), (''postStart'', ''db'', [''A'']), (''postStart'', ''server'', [''B''])])"
  by (cases par)
    (simp_all add: start_def ex_order notifyObserverGroup_def
      notifyObserver_def invokeObserver_def promise_all_def ex_parallel ex_get ex_observer_def)

lemma ex_stop:
  "stop hd ex_tags (ex_registry par) =
     (Inr (),
      [(''preStop'', ''server'', [''B'']), (''preStop'', ''db'', [''A'']), (''preStop'', '''', [''C'']),
       (''stop'', ''server'', [''B'']), (''stop'', ''db'', [''A'']), (''stop'', '''', [''C'']),
       (''postStop'', ''server'', [''B'']), (''postStop'', ''db'', [''A'']), (''postStop'', '''', [''C''])])"
  by (cases par)
    (simp_all add: stop_def ex_order notifyObserverGroup_def
      notifyObserver_def invokeObserver_def promise_all_def ex_parallel ex_get ex_observer_def)

lemma ex_failing_start:
  "start hd ex_tags (ex_failing_registry par) =
     (Inl 7,
      [(''preStart'', '''', [''C'']), (''preStart'', ''db'', [''A'']), (''preStart'', ''server'', [''B'']),
       (''start'', '''', [''C'']), (''start'', ''db'', [''A'']), (''start'', ''server'', [''B''])])"
  by (cases par)
    (simp_all add: start_def ex_failing_order notifyObserverGroup_def notifyObserver_def
      invokeObserver_def promise_all_def ex_failing_parallel ex_failing_get ex_observer_def)

text \<open>
  Claim C5. Notification is sub-event-major. When \<open>start\<close> succeeds, its trace is: every
  group in order for \<open>preStart\<close>, then every group in order for \<open>start\<close>, then
  every group in order for \<open>postStart\<close>, each group with all its members in
  registration order. When \<open>stop\<close> succeeds, its trace is the same walk over the
  reversed groups for \<open>preStop\<close>, \<open>stop\<close>, \<open>postStop\<close>. So every group receives
  a sub-event before any group receives the next one.
\<close>

theorem sub_event_major:
  "(fst (start first ct this) = Inr () \<longrightarrow>
      snd (start first ct this) =
        concat (map (\<lambda>ev. map (\<lambda>g. (ev, group g, map key (bindings g)))
                       (getObserverGroupsByOrder ct this))
                  [''preStart'', ''start'', ''postStart''])) \<and>
   (fst (stop first ct this) = Inr () \<longrightarrow>
      snd (stop first ct this) =
        concat (map (\<lambda>ev. map (\<lambda>g. (ev, group g, map key (bindings g)))
                       (rev (getObserverGroupsByOrder ct this)))
                  [''preStop'', ''stop'', ''postStop'']))"
  unfolding start_def stop_def Let_def using notifyGroups_success by blast

theorem sub_event_major_witness:
  "fst (start hd ex_tags (ex_registry True)) = Inr () \<and>
   snd (start hd ex_tags (ex_registry True)) =
     [(''preStart'', '''', [''C'']), (''preStart'', ''db'', [''A'']), (''preStart'', ''server'', [''B'']),
      (''start'', '''', [''C'']), (''start'', ''db'', [''A'']), (''start'', ''server'', [''B'']),
      (''postStart'', '''', [''C'']), (''postStart'', ''db'', [''A'']), (''postStart'', ''server'', [''B''])] \<and>
   fst (stop hd ex_tags (ex_registry True)) = Inr () \<and>
   snd (stop hd ex_tags (ex_registry True)) =
     [(''preStop'', ''server'', [''B'']), (''preStop'', ''db'', [''A'']), (''preStop'', '''', [''C'']),
      (''stop'', ''server'', [''B'']), (''stop'', ''db'', [''A'']), (''stop'', '''', [''C'']),
      (''postStop'', ''server'', [''B'']), (''postStop'', ''db'', [''A'']), (''postStop'', '''', [''C''])]"
proof -
  have s: "fst (start hd ex_tags (ex_registry True)) = Inr ()" by (simp add: ex_start)
  have t: "fst (stop hd ex_tags (ex_registry True)) = Inr ()" by (simp add: ex_stop)
  from sub_event_major [of hd ex_tags "ex_registry True"] s t
  have "snd (start hd ex_tags (ex_registry True)) =
      concat (map (\<lambda>ev. map (\<lambda>g. (ev, group g, map key (bindings g)))
                     (getObserverGroupsByOrder ex_tags (ex_registry True)))
                [''preStart'', ''start'', ''postStart''])"
    and "snd (stop hd ex_tags (ex_registry True)) =
      concat (map (\<lambda>ev. map (\<lambda>g. (ev, group g, map key (bindings g)))
                     (rev (getObserverGroupsByOrder ex_tags (ex_registry True))))
                [''preStop'', ''stop'', ''postStop''])"
    by blast+
  with s t show ?thesis by (simp add: ex_order ex_observer_def)
qed

text \<open>
  Claim C2. For every registry, the groups that \<open>start\<close> visits are an initial segment
  of the walk over the ordered groups, sub-event by sub-event, and the groups that
  \<open>stop\<close> visits are an initial segment of the same walk over the reversed groups, with
  the sub-events \<open>preStop\<close>, \<open>stop\<close>, \<open>postStop\<close> in their declared order. When both
  transitions succeed, the groups visited for each sub-event of \<open>stop\<close>, each with its
  members, are the reverse of the groups visited for the matching sub-event of
  \<open>start\<close>: the order of the groups is reversed and the members of every group stay in
  registration order.
\<close>

theorem stop_reverses_group_order:
  "map (\<lambda>x. (fst x, fst (snd x))) (snd (start first ct this)) =
     take (length (snd (start first ct this)))
       (concat (map (\<lambda>ev. map (\<lambda>g. (ev, group g)) (getObserverGroupsByOrder ct this))
                  [''preStart'', ''start'', ''postStart''])) \<and>
   map (\<lambda>x. (fst x, fst (snd x))) (snd (stop first ct this)) =
     take (length (snd (stop first ct this)))
       (concat (map (\<lambda>ev. map (\<lambda>g. (ev, group g)) (rev (getObserverGroupsByOrder ct this)))
                  [''preStop'', ''stop'', ''postStop''])) \<and>
   (fst (start first ct this) = Inr () \<and> fst (stop first ct this) = Inr () \<longrightarrow>
      map snd (filter (\<lambda>x. fst x = ''preStop'') (snd (stop first ct this))) =
        rev (map snd (filter (\<lambda>x. fst x = ''preStart'') (snd (start first ct this)))) \<and>
      map snd (filter (\<lambda>x. fst x = ''stop'') (snd (stop first ct this))) =
        rev (map snd (filter (\<lambda>x. fst x = ''start'') (snd (start first ct this)))) \<and>
      map snd (filter (\<lambda>x. fst x = ''postStop'') (snd (stop first ct this))) =
        rev (map snd (filter (\<lambda>x. fst x = ''postStart'') (snd (start first ct this)))) \<and>
      map snd (filter (\<lambda>x. fst x = ''preStart'') (snd (start first ct this))) =
        map (\<lambda>g. (group g, map key (bindings g))) (getObserverGroupsByOrder ct this))"
proof -
  let ?gs = "getObserverGroupsByOrder ct this"
  let ?f = "\<lambda>g. (group g, map key (bindings g))"
  have u1: "map (\<lambda>x. (fst x, fst (snd x))) (snd (start first ct this)) =
     take (length (snd (start first ct this)))
       (concat (map (\<lambda>ev. map (\<lambda>g. (ev, group g)) ?gs) [''preStart'', ''start'', ''postStart'']))"
    unfolding start_def Let_def by (rule notifyGroups_follows_plan)
  have u2: "map (\<lambda>x. (fst x, fst (snd x))) (snd (stop first ct this)) =
     take (length (snd (stop first ct this)))
       (concat (map (\<lambda>ev. map (\<lambda>g. (ev, group g)) (rev ?gs)) [''preStop'', ''stop'', ''postStop'']))"
    unfolding stop_def Let_def by (rule notifyGroups_follows_plan)
  have s: "map snd (filter (\<lambda>x. fst x = e) (snd (start first ct this))) = map ?f ?gs"
    if "fst (start first ct this) = Inr ()" "e \<in> set [''preStart'', ''start'', ''postStart'']" for e
  proof -
    from that(1) have "snd (start first ct this) =
        concat (map (\<lambda>ev. map (\<lambda>g. (ev, ?f g)) ?gs) [''preStart'', ''start'', ''postStart''])"
      unfolding start_def Let_def by (rule notifyGroups_success)
    then have "filter (\<lambda>x. fst x = e) (snd (start first ct this)) = map (\<lambda>g. (e, ?f g)) ?gs"
      using filter_event_concat [of "[''preStart'', ''start'', ''postStart'']" e ?f ?gs] that(2)
      by simp
    then show ?thesis by (simp add: comp_def)
  qed
  have t: "map snd (filter (\<lambda>x. fst x = e) (snd (stop first ct this))) = rev (map ?f ?gs)"
    if "fst (stop first ct this) = Inr ()" "e \<in> set [''preStop'', ''stop'', ''postStop'']" for e
  proof -
    from that(1) have "snd (stop first ct this) =
        concat (map (\<lambda>ev. map (\<lambda>g. (ev, ?f g)) (rev ?gs)) [''preStop'', ''stop'', ''postStop''])"
      unfolding stop_def Let_def by (rule notifyGroups_success)
    then have "filter (\<lambda>x. fst x = e) (snd (stop first ct this)) = map (\<lambda>g. (e, ?f g)) (rev ?gs)"
      using filter_event_concat [of "[''preStop'', ''stop'', ''postStop'']" e ?f "rev ?gs"] that(2)
      by simp
    then show ?thesis by (simp add: comp_def rev_map)
  qed
  from u1 u2 s t show ?thesis by simp
qed

theorem stop_reverses_group_order_witness:
  "fst (start hd ex_tags (ex_registry False)) = Inr () \<and>
   fst (stop hd ex_tags (ex_registry False)) = Inr () \<and>
   map snd (filter (\<lambda>x. fst x = ''preStart'') (snd (start hd ex_tags (ex_registry False)))) =
     [('''', [''C'']), (''db'', [''A'']), (''server'', [''B''])] \<and>
   map snd (filter (\<lambda>x. fst x = ''preStop'') (snd (stop hd ex_tags (ex_registry False)))) =
     rev [('''', [''C'']), (''db'', [''A'']), (''server'', [''B''])]"
proof -
  have s: "fst (start hd ex_tags (ex_registry False)) = Inr ()" by (simp add: ex_start)
  have t: "fst (stop hd ex_tags (ex_registry False)) = Inr ()" by (simp add: ex_stop)
  from stop_reverses_group_order [of hd ex_tags "ex_registry False"] s t
  have "map snd (filter (\<lambda>x. fst x = ''preStop'') (snd (stop hd ex_tags (ex_registry False)))) =
      rev (map snd (filter (\<lambda>x. fst x = ''preStart'') (snd (start hd ex_tags (ex_registry False)))))"
    and "map snd (filter (\<lambda>x. fst x = ''preStart'') (snd (start hd ex_tags (ex_registry False)))) =
      map (\<lambda>g. (group g, map key (bindings g))) (getObserverGroupsByOrder ex_tags (ex_registry False))"
    by blast+
  with s t show ?thesis by (simp add: ex_order ex_observer_def)
qed

section \<open>Failures\<close>

lemma notifyObserver_failure:
  "notifyObserver this b event =
     (case failure_of this b event of None \<Rightarrow> Inr () | Some e \<Rightarrow> Inl e)"
  by (simp add: notifyObserver_def invokeObserver_def failure_of_def
      split: sum.splits option.splits outcome.splits)

lemma failure_of_None_iff:
  "failure_of this b event = None \<longleftrightarrow>
     (\<exists>observer. get (ctx this) (key b) = Inr observer \<and>
        (observer event = None \<or> observer event = Some Resolved))"
  by (auto simp: failure_of_def split: sum.splits option.splits outcome.splits)

lemma failure_of_Some_iff:
  "failure_of this b event = Some e \<longleftrightarrow>
     get (ctx this) (key b) = Inl e \<or>
     (\<exists>observer. get (ctx this) (key b) = Inr observer \<and> observer event = Some (Rejected e))"
  by (auto simp: failure_of_def split: sum.splits option.splits outcome.splits)

lemma notifyObserver_ok_iff:
  "notifyObserver this b event = Inr () \<longleftrightarrow> failure_of this b event = None"
  by (simp add: notifyObserver_failure split: option.splits)

lemma notifyObserver_fails_iff:
  "notifyObserver this b event = Inl e \<longleftrightarrow> failure_of this b event = Some e"
  by (simp add: notifyObserver_failure split: option.splits)

lemma rejections_are_failures:
  "[e. Inl e \<leftarrow> map (\<lambda>b. notifyObserver this b event) bs] =
     List.map_filter (\<lambda>b. failure_of this b event) bs"
  by (induction bs) (simp_all add: List.map_filter_simps notifyObserver_failure split: option.splits)

lemma abort_at_first_failing_call:
  assumes run:
      "(run = start first ct this \<and>
          p = List.product [''preStart'', ''start'', ''postStart''] (getObserverGroupsByOrder ct this)) \<or>
       (run = stop first ct this \<and>
          p = List.product [''preStop'', ''stop'', ''postStop''] (rev (getObserverGroupsByOrder ct this)))"
    and k: "k < length p"
    and fails: "\<exists>b \<in> set (bindings (snd (p ! k))). notifyObserver this b (fst (p ! k)) \<noteq> Inr ()"
    and before: "\<forall>j<k. \<forall>b \<in> set (bindings (snd (p ! j))). notifyObserver this b (fst (p ! j)) = Inr ()"
  shows "(\<exists>err. fst run = Inl err) \<and>
         fst run = fst (notifyObserverGroup first this (snd (p ! k)) (fst (p ! k))) \<and>
         length (snd run) = Suc k \<and>
         map (\<lambda>x. (fst x, fst (snd x))) (snd run) = map (\<lambda>c. (fst c, group (snd c))) (take (Suc k) p) \<and>
         (parallel (options this) = Some True \<longrightarrow>
            fst run = Inl (first [e. Inl e \<leftarrow> map (\<lambda>b. notifyObserver this b (fst (p ! k)))
                                               (bindings (snd (p ! k)))]) \<and>
            snd (snd (last (snd run))) = map key (bindings (snd (p ! k)))) \<and>
         (parallel (options this) \<noteq> Some True \<longrightarrow>
            (\<exists>pre b rest. bindings (snd (p ! k)) = pre @ b # rest \<and>
               (\<forall>x \<in> set pre. notifyObserver this x (fst (p ! k)) = Inr ()) \<and>
               fst run = notifyObserver this b (fst (p ! k)) \<and>
               snd (snd (last (snd run))) = map key pre @ [key b]))"
proof -
  let ?ev = "fst (p ! k)"
  let ?g = "snd (p ! k)"
  let ?call = "notifyObserverGroup first this ?g ?ev"
  from run have plan: "run = notifyPlan first this p"
    by (auto simp: start_def stop_def Let_def notifyGroups_plan)
  have ok_before: "\<forall>j<k. fst (notifyObserverGroup first this (snd (p ! j)) (fst (p ! j))) = Inr ()"
    using before by (simp add: notifyObserverGroup_ok_iff)
  have not_ok: "fst ?call \<noteq> Inr ()"
    using fails by (simp add: notifyObserverGroup_ok_iff)
  note ff = notifyPlan_length_first_failure [OF k ok_before not_ok]
  have res: "fst run = fst ?call" unfolding plan by (rule ff(1))
  have tr: "snd run = map (entry_of first this) (take (Suc k) p)" unfolding plan by (rule ff(2))
  from not_ok res have err: "\<exists>err. fst run = Inl err"
    by (cases "fst ?call") auto
  from tr k have len: "length (snd run) = Suc k" by simp
  have names: "map (\<lambda>x. (fst x, fst (snd x))) (snd run) = map (\<lambda>c. (fst c, group (snd c))) (take (Suc k) p)"
    unfolding tr by (simp add: entry_of_def)
  have "take (Suc k) p = take k p @ [p ! k]" using k by (simp add: take_Suc_conv_app_nth)
  then have lst: "last (snd run) = entry_of first this (p ! k)" unfolding tr by simp
  then have called: "snd (snd (last (snd run))) = snd ?call" by (simp add: entry_of_def)
  have par: "fst run = Inl (first [e. Inl e \<leftarrow> map (\<lambda>b. notifyObserver this b ?ev) (bindings ?g)]) \<and>
      snd (snd (last (snd run))) = map key (bindings ?g)"
    if p: "parallel (options this) = Some True"
  proof -
    from p have c: "?call = (promise_all first (map (\<lambda>b. notifyObserver this b ?ev) (bindings ?g)),
        map key (bindings ?g))"
      by (rule notifyObserverGroup_parallel)
    with not_ok have "promise_all first (map (\<lambda>b. notifyObserver this b ?ev) (bindings ?g)) \<noteq> Inr ()"
      by simp
    from promise_all_rejects [OF this] c res called show ?thesis by simp
  qed
  have seq: "\<exists>pre b rest. bindings ?g = pre @ b # rest \<and>
      (\<forall>x \<in> set pre. notifyObserver this x ?ev = Inr ()) \<and>
      fst run = notifyObserver this b ?ev \<and>
      snd (snd (last (snd run))) = map key pre @ [key b]"
    if s: "parallel (options this) \<noteq> Some True"
  proof -
    from fails have "\<not> (\<forall>b \<in> set (bindings ?g). notifyObserver this b ?ev = Inr ())" by simp
    from first_failing_member [OF this] obtain pre b rest e where
      split: "bindings ?g = pre @ b # rest"
      and pre: "\<forall>x \<in> set pre. notifyObserver this x ?ev = Inr ()"
      and b: "notifyObserver this b ?ev = Inl e" by blast
    from notifyObserverGroup_first_failure [OF s split pre b]
    have "?call = (Inl e, map key pre @ [key b])" .
    with res called b have "fst run = notifyObserver this b ?ev"
      "snd (snd (last (snd run))) = map key pre @ [key b]" by simp_all
    with split pre show ?thesis by blast
  qed
  from err res len names par seq show ?thesis by blast
qed

lemma ex_unresolved_found: "findObserverBindings ex_tags (ex_unresolved_registry par) = ex_observers"
  by (simp add: findObserverBindings_def ex_unresolved_registry_def ex_unresolved_context_def
      ex_observers_def ex_observer_def ex_tags_def)

lemma ex_unresolved_groups:
  "sortObserverBindingsByGroup ex_tags (ex_unresolved_registry par) ex_observers =
     [\<lparr>group = '''', bindings = [ex_observer ''C'' []]\<rparr>,
      \<lparr>group = ''db'', bindings = [ex_observer ''A'' [(''lifeCycleObserverGroup'', ''db'')]]\<rparr>,
      \<lparr>group = ''server'', bindings = [ex_observer ''B'' [(''lifeCycleObserverGroup'', ''server'')]]\<rparr>]"
  by (simp add: sortObserverBindingsByGroup_def getObserverGroup_def ex_tags_def
      ex_unresolved_registry_def ex_observers_def ex_observer_def js_sort_def push_to_group_def
      falsy_def or_empty_def)

lemma ex_unresolved_order:
  "getObserverGroupsByOrder ex_tags (ex_unresolved_registry par) =
     [\<lparr>group = '''', bindings = [ex_observer ''C'' []]\<rparr>,
      \<lparr>group = ''db'', bindings = [ex_observer ''A'' [(''lifeCycleObserverGroup'', ''db'')]]\<rparr>,
      \<lparr>group = ''server'', bindings = [ex_observer ''B'' [(''lifeCycleObserverGroup'', ''server'')]]\<rparr>]"
  by (simp add: getObserverGroupsByOrder_def ex_unresolved_found ex_unresolved_groups)

lemma ex_unresolved_parallel: "parallel (options (ex_unresolved_registry par)) = Some par"
  by (simp add: ex_unresolved_registry_def)

lemma ex_unresolved_get:
  "get (ctx (ex_unresolved_registry par)) k =
     (if k = ''A'' then Inl 3 else Inr (\<lambda>event. Some Resolved))"
  by (simp add: ex_unresolved_registry_def ex_unresolved_context_def)

text \<open>
  Claim C4. Take a run of \<open>start\<close> or \<open>stop\<close>, with \<open>p\<close> the calls of
  \<open>notifyObserverGroup\<close> it is to make in order, and let the call number \<open>k\<close> be the
  first in which a member fails: the context does not resolve its key, or its method
  for the event rejects; in every call before, every member resolves and its method is
  missing or resolves. Then the run returns an error, the one this call returned; the
  trace has exactly the calls up to and including this one, so no later group and no
  later sub-event is notified. In parallel mode the error is the one that
  \<^verbatim>\<open>Promise.all\<close> picks among the failures of the members (resolution errors and
  rejections, in member order), and every member of the group was notified; in
  sequential mode it is the resolution error or the rejection of the first failing
  member, and no member after it was notified.
\<close>

theorem transition_aborts_on_error:
  assumes run:
      "(run = start first ct this \<and>
          p = List.product [''preStart'', ''start'', ''postStart''] (getObserverGroupsByOrder ct this)) \<or>
       (run = stop first ct this \<and>
          p = List.product [''preStop'', ''stop'', ''postStop''] (rev (getObserverGroupsByOrder ct this)))"
    and k: "k < length p"
    and fails: "\<exists>b \<in> set (bindings (snd (p ! k))).
        (\<exists>e. get (ctx this) (key b) = Inl e) \<or>
        (\<exists>observer e. get (ctx this) (key b) = Inr observer \<and>
           observer (fst (p ! k)) = Some (Rejected e))"
    and before: "\<forall>j<k. \<forall>b \<in> set (bindings (snd (p ! j))).
        \<exists>observer. get (ctx this) (key b) = Inr observer \<and>
          (observer (fst (p ! j)) = None \<or> observer (fst (p ! j)) = Some Resolved)"
  shows "(\<exists>err. fst run = Inl err) \<and>
         fst run = fst (notifyObserverGroup first this (snd (p ! k)) (fst (p ! k))) \<and>
         length (snd run) = Suc k \<and>
         map (\<lambda>x. (fst x, fst (snd x))) (snd run) = map (\<lambda>c. (fst c, group (snd c))) (take (Suc k) p) \<and>
         (parallel (options this) = Some True \<longrightarrow>
            fst run = Inl (first (List.map_filter (\<lambda>b. failure_of this b (fst (p ! k)))
                                   (bindings (snd (p ! k))))) \<and>
            List.map_filter (\<lambda>b. failure_of this b (fst (p ! k))) (bindings (snd (p ! k))) \<noteq> [] \<and>
            snd (snd (last (snd run))) = map key (bindings (snd (p ! k)))) \<and>
         (parallel (options this) \<noteq> Some True \<longrightarrow>
            (\<exists>pre b rest e. bindings (snd (p ! k)) = pre @ b # rest \<and>
               (\<forall>x \<in> set pre. \<exists>observer. get (ctx this) (key x) = Inr observer \<and>
                  (observer (fst (p ! k)) = None \<or> observer (fst (p ! k)) = Some Resolved)) \<and>
               (get (ctx this) (key b) = Inl e \<or>
                (\<exists>observer. get (ctx this) (key b) = Inr observer \<and>
                   observer (fst (p ! k)) = Some (Rejected e))) \<and>
               fst run = Inl e \<and>
               snd (snd (last (snd run))) = map key pre @ [key b]))"
proof -
  let ?ev = "fst (p ! k)"
  let ?g = "snd (p ! k)"
  let ?fs = "List.map_filter (\<lambda>b. failure_of this b ?ev) (bindings ?g)"
  from fails obtain b0 e0 where b0: "b0 \<in> set (bindings ?g)" and f0: "failure_of this b0 ?ev = Some e0"
    by (auto simp: failure_of_Some_iff)
  then have fails': "\<exists>b \<in> set (bindings ?g). notifyObserver this b ?ev \<noteq> Inr ()"
    by (auto simp: notifyObserver_ok_iff)
  have before': "\<forall>j<k. \<forall>b \<in> set (bindings (snd (p ! j))). notifyObserver this b (fst (p ! j)) = Inr ()"
    using before by (simp add: notifyObserver_ok_iff failure_of_None_iff)
  note a = abort_at_first_failing_call [OF run k fails' before']
  from a have err: "\<exists>err. fst run = Inl err"
    and res: "fst run = fst (notifyObserverGroup first this ?g ?ev)"
    and len: "length (snd run) = Suc k"
    and names: "map (\<lambda>x. (fst x, fst (snd x))) (snd run) = map (\<lambda>c. (fst c, group (snd c))) (take (Suc k) p)"
    by blast+
  from b0 f0 have ne: "?fs \<noteq> []"
    by (auto simp: List.map_filter_def filter_empty_conv)
  have par: "fst run = Inl (first ?fs) \<and> ?fs \<noteq> [] \<and>
      snd (snd (last (snd run))) = map key (bindings ?g)"
    if p: "parallel (options this) = Some True"
  proof -
    from a p have "fst run =
        Inl (first [e. Inl e \<leftarrow> map (\<lambda>b. notifyObserver this b ?ev) (bindings ?g)])"
      and "snd (snd (last (snd run))) = map key (bindings ?g)"
      by blast+
    with ne show ?thesis by (simp only: rejections_are_failures) simp
  qed
  have seq: "\<exists>pre b rest e. bindings ?g = pre @ b # rest \<and>
      (\<forall>x \<in> set pre. \<exists>observer. get (ctx this) (key x) = Inr observer \<and>
         (observer ?ev = None \<or> observer ?ev = Some Resolved)) \<and>
      (get (ctx this) (key b) = Inl e \<or>
       (\<exists>observer. get (ctx this) (key b) = Inr observer \<and> observer ?ev = Some (Rejected e))) \<and>
      fst run = Inl e \<and>
      snd (snd (last (snd run))) = map key pre @ [key b]"
    if s: "parallel (options this) \<noteq> Some True"
  proof -
    from a s obtain pre b rest where split: "bindings ?g = pre @ b # rest"
      and pre: "\<forall>x \<in> set pre. notifyObserver this x ?ev = Inr ()"
      and r: "fst run = notifyObserver this b ?ev"
      and called: "snd (snd (last (snd run))) = map key pre @ [key b]"
      by blast
    from err r obtain e where e: "notifyObserver this b ?ev = Inl e" by auto
    then have fb: "get (ctx this) (key b) = Inl e \<or>
       (\<exists>observer. get (ctx this) (key b) = Inr observer \<and> observer ?ev = Some (Rejected e))"
      by (simp add: notifyObserver_fails_iff failure_of_Some_iff)
    have fp: "\<forall>x \<in> set pre. \<exists>observer. get (ctx this) (key x) = Inr observer \<and>
         (observer ?ev = None \<or> observer ?ev = Some Resolved)"
      using pre by (simp add: notifyObserver_ok_iff failure_of_None_iff)
    from r e have "fst run = Inl e" by simp
    with split fp fb called show ?thesis by blast
  qed
  from err res len names par seq show ?thesis by blast
qed

theorem transition_aborts_on_error_witness:
  "fst (start hd ex_tags (ex_failing_registry False)) = Inl 7 \<and>
   length (snd (start hd ex_tags (ex_failing_registry False))) = 6 \<and>
   map (\<lambda>x. (fst x, fst (snd x))) (snd (start hd ex_tags (ex_failing_registry False))) =
     [(''preStart'', ''''), (''preStart'', ''db''), (''preStart'', ''server''),
      (''start'', ''''), (''start'', ''db''), (''start'', ''server'')] \<and>
   fst (start hd ex_tags (ex_unresolved_registry False)) = Inl 3 \<and>
   map (\<lambda>x. (fst x, fst (snd x))) (snd (start hd ex_tags (ex_unresolved_registry False))) =
     [(''preStart'', ''''), (''preStart'', ''db'')] \<and>
   fst (stop hd ex_tags (ex_unresolved_registry True)) = Inl 3 \<and>
   map (\<lambda>x. (fst x, fst (snd x))) (snd (stop hd ex_tags (ex_unresolved_registry True))) =
     [(''preStop'', ''server''), (''preStop'', ''db'')]"
proof -
  let ?reg = "ex_failing_registry False"
  let ?p = "List.product [''preStart'', ''start'', ''postStart''] (getObserverGroupsByOrder ex_tags ?reg)"
  have run: "(start hd ex_tags ?reg = start hd ex_tags ?reg \<and> ?p = ?p) \<or>
      (start hd ex_tags ?reg = stop hd ex_tags ?reg \<and>
       ?p = List.product [''preStop'', ''stop'', ''postStop''] (rev (getObserverGroupsByOrder ex_tags ?reg)))"
    by simp
  have k: "5 < length ?p" by (simp add: ex_failing_order)
  have fails: "\<exists>b \<in> set (bindings (snd (?p ! 5))).
      (\<exists>e. get (ctx ?reg) (key b) = Inl e) \<or>
      (\<exists>observer e. get (ctx ?reg) (key b) = Inr observer \<and> observer (fst (?p ! 5)) = Some (Rejected e))"
    by (simp add: ex_failing_order ex_failing_get ex_observer_def)
  have before: "\<forall>j<5. \<forall>b \<in> set (bindings (snd (?p ! j))).
      \<exists>observer. get (ctx ?reg) (key b) = Inr observer \<and>
        (observer (fst (?p ! j)) = None \<or> observer (fst (?p ! j)) = Some Resolved)"
    by (simp add: ex_failing_order ex_failing_get ex_observer_def eval_nat_numeral All_less_Suc)
  from transition_aborts_on_error [OF run k fails before]
  have "fst (start hd ex_tags ?reg) = fst (notifyObserverGroup hd ?reg (snd (?p ! 5)) (fst (?p ! 5)))"
    and "length (snd (start hd ex_tags ?reg)) = Suc 5"
    and "map (\<lambda>x. (fst x, fst (snd x))) (snd (start hd ex_tags ?reg)) =
      map (\<lambda>c. (fst c, group (snd c))) (take (Suc 5) ?p)"
    by blast+
  then have a: "fst (start hd ex_tags ?reg) = Inl 7 \<and>
      length (snd (start hd ex_tags ?reg)) = 6 \<and>
      map (\<lambda>x. (fst x, fst (snd x))) (snd (start hd ex_tags ?reg)) =
        [(''preStart'', ''''), (''preStart'', ''db''), (''preStart'', ''server''),
         (''start'', ''''), (''start'', ''db''), (''start'', ''server'')]"
    by (simp add: ex_failing_order notifyObserverGroup_def notifyObserver_def invokeObserver_def
        ex_failing_get ex_failing_parallel ex_observer_def)
  let ?ureg = "ex_unresolved_registry False"
  let ?q = "List.product [''preStart'', ''start'', ''postStart''] (getObserverGroupsByOrder ex_tags ?ureg)"
  have run2: "(start hd ex_tags ?ureg = start hd ex_tags ?ureg \<and> ?q = ?q) \<or>
      (start hd ex_tags ?ureg = stop hd ex_tags ?ureg \<and>
       ?q = List.product [''preStop'', ''stop'', ''postStop''] (rev (getObserverGroupsByOrder ex_tags ?ureg)))"
    by simp
  have k2: "1 < length ?q" by (simp add: ex_unresolved_order)
  have fails2: "\<exists>b \<in> set (bindings (snd (?q ! 1))).
      (\<exists>e. get (ctx ?ureg) (key b) = Inl e) \<or>
      (\<exists>observer e. get (ctx ?ureg) (key b) = Inr observer \<and> observer (fst (?q ! 1)) = Some (Rejected e))"
    by (simp add: ex_unresolved_order ex_unresolved_get ex_observer_def)
  have before2: "\<forall>j<1. \<forall>b \<in> set (bindings (snd (?q ! j))).
      \<exists>observer. get (ctx ?ureg) (key b) = Inr observer \<and>
        (observer (fst (?q ! j)) = None \<or> observer (fst (?q ! j)) = Some Resolved)"
    by (simp add: ex_unresolved_order ex_unresolved_get ex_observer_def)
  from transition_aborts_on_error [OF run2 k2 fails2 before2]
  have "fst (start hd ex_tags ?ureg) = fst (notifyObserverGroup hd ?ureg (snd (?q ! 1)) (fst (?q ! 1)))"
    and "map (\<lambda>x. (fst x, fst (snd x))) (snd (start hd ex_tags ?ureg)) =
      map (\<lambda>c. (fst c, group (snd c))) (take (Suc 1) ?q)"
    by blast+
  then have b: "fst (start hd ex_tags ?ureg) = Inl 3 \<and>
      map (\<lambda>x. (fst x, fst (snd x))) (snd (start hd ex_tags ?ureg)) =
        [(''preStart'', ''''), (''preStart'', ''db'')]"
    by (simp add: ex_unresolved_order notifyObserverGroup_def notifyObserver_def invokeObserver_def
        ex_unresolved_get ex_unresolved_parallel ex_observer_def)
  let ?preg = "ex_unresolved_registry True"
  let ?r = "List.product [''preStop'', ''stop'', ''postStop''] (rev (getObserverGroupsByOrder ex_tags ?preg))"
  have run3: "(stop hd ex_tags ?preg = start hd ex_tags ?preg \<and>
       ?r = List.product [''preStart'', ''start'', ''postStart''] (getObserverGroupsByOrder ex_tags ?preg)) \<or>
      (stop hd ex_tags ?preg = stop hd ex_tags ?preg \<and> ?r = ?r)"
    by simp
  have k3: "1 < length ?r" by (simp add: ex_unresolved_order)
  have fails3: "\<exists>b \<in> set (bindings (snd (?r ! 1))).
      (\<exists>e. get (ctx ?preg) (key b) = Inl e) \<or>
      (\<exists>observer e. get (ctx ?preg) (key b) = Inr observer \<and> observer (fst (?r ! 1)) = Some (Rejected e))"
    by (simp add: ex_unresolved_order ex_unresolved_get ex_observer_def)
  have before3: "\<forall>j<1. \<forall>b \<in> set (bindings (snd (?r ! j))).
      \<exists>observer. get (ctx ?preg) (key b) = Inr observer \<and>
        (observer (fst (?r ! j)) = None \<or> observer (fst (?r ! j)) = Some Resolved)"
    by (simp add: ex_unresolved_order ex_unresolved_get ex_observer_def)
  from transition_aborts_on_error [OF run3 k3 fails3 before3]
  have "fst (stop hd ex_tags ?preg) = fst (notifyObserverGroup hd ?preg (snd (?r ! 1)) (fst (?r ! 1)))"
    and "map (\<lambda>x. (fst x, fst (snd x))) (snd (stop hd ex_tags ?preg)) =
      map (\<lambda>c. (fst c, group (snd c))) (take (Suc 1) ?r)"
    by blast+
  then have c: "fst (stop hd ex_tags ?preg) = Inl 3 \<and>
      map (\<lambda>x. (fst x, fst (snd x))) (snd (stop hd ex_tags ?preg)) =
        [(''preStop'', ''server''), (''preStop'', ''db'')]"
    by (simp add: ex_unresolved_order notifyObserverGroup_def notifyObserver_def invokeObserver_def
        promise_all_def ex_unresolved_get ex_unresolved_parallel ex_observer_def)
  from a b c show ?thesis by blast
qed

section \<open>Parallel notification in time\<close>

lemma earliest_mem: "earliest r rs \<in> set (r # rs)"
  by (induction rs arbitrary: r) auto

lemma earliest_le_all: "\<forall>x \<in> set (r # rs). fst (earliest r rs) \<le> fst x"
proof (induction rs arbitrary: r)
  case Nil
  show ?case by simp
next
  case (Cons y rs)
  let ?r' = "if fst y < fst r then y else r"
  from Cons.IH [of ?r'] have a: "fst (earliest ?r' rs) \<le> fst ?r'"
    and b: "\<forall>x \<in> set rs. fst (earliest ?r' rs) \<le> fst x" by simp_all
  have c: "fst ?r' \<le> fst r" and d: "fst ?r' \<le> fst y" by simp_all
  from a c have "fst (earliest ?r' rs) \<le> fst r" by (rule le_trans)
  moreover from a d have "fst (earliest ?r' rs) \<le> fst y" by (rule le_trans)
  ultimately show ?case using b by simp
qed

lemma earliest_le: "x \<in> set (r # rs) \<Longrightarrow> fst (earliest r rs) \<le> fst x"
  using earliest_le_all [of r rs] by blast

lemma foldr_max_ge: "t \<in> set ts \<Longrightarrow> t \<le> foldr max ts (now :: nat)"
  by (induction ts) (auto simp: max_def)

lemma rejections_set:
  "set [(t, e). (t, Inl e) \<leftarrow> settled] = {(t, e). (t, Inl e) \<in> set settled}"
proof (induction settled)
  case Nil
  show ?case by simp
next
  case (Cons s settled)
  obtain t r where s: "s = (t, r)" by (cases s)
  show ?case
  proof (cases r)
    case (Inl e)
    with s Cons show ?thesis by auto
  next
    case (Inr u)
    with s Cons show ?thesis by auto
  qed
qed

lemma promise_all_at_fulfilled:
  assumes "\<forall>s \<in> set settled. snd s = Inr ()"
  shows "promise_all_at now settled = (foldr max (map fst settled) now, Inr ())"
proof -
  have "set [(t, e). (t, Inl e) \<leftarrow> settled] = {}"
    unfolding rejections_set using assms by force
  then have "[(t, e). (t, Inl e) \<leftarrow> settled] = []" by (simp only: set_empty)
  then show ?thesis unfolding promise_all_at_def by (simp only: list.case)
qed

lemma promise_all_at_rejected:
  assumes "\<not> (\<forall>s \<in> set settled. snd s = Inr ())"
  shows "\<exists>t e. (t, Inl e) \<in> set settled \<and> promise_all_at now settled = (t, Inl e) \<and>
     (\<forall>t' e'. (t', Inl e') \<in> set settled \<longrightarrow> t \<le> t')"
proof -
  let ?R = "[(t, e). (t, Inl e) \<leftarrow> settled]"
  from assms obtain s where s: "s \<in> set settled" "snd s \<noteq> Inr ()" by blast
  obtain t0 r0 where tr: "s = (t0, r0)" by (cases s)
  with s(2) obtain e0 where "r0 = Inl e0" by (cases r0) auto
  with tr have "s = (t0, Inl e0)" by simp
  with s have "(t0, e0) \<in> set ?R" unfolding rejections_set by simp
  then have "?R \<noteq> []" by (metis empty_iff empty_set)
  then obtain r rs where R: "?R = r # rs" by (cases ?R) auto
  let ?m = "earliest r rs"
  have val: "promise_all_at now settled = (fst ?m, Inl (snd ?m))"
    unfolding promise_all_at_def R by (simp only: list.case)
  have "?m \<in> set ?R" unfolding R by (rule earliest_mem)
  then have mem: "(fst ?m, Inl (snd ?m)) \<in> set settled"
    unfolding rejections_set by (simp add: case_prod_beta)
  have least: "fst ?m \<le> t'" if "(t', Inl e') \<in> set settled" for t' e'
  proof -
    from that have "(t', e') \<in> set (r # rs)" unfolding R [symmetric] rejections_set by simp
    from earliest_le [OF this] show ?thesis by simp
  qed
  from mem val least show ?thesis by blast
qed

lemma notifyMembers_at_parallel:
  "parallel (options this) = Some True \<Longrightarrow>
     notifyMembers_at takes this event bs notifiers now =
       (Inr (notifiers @ map (\<lambda>b. (now + takes b event, notifyObserver this b event)) bs), now)"
  by (induction bs arbitrary: notifiers) simp_all

lemma notifyObserverGroup_at_parallel:
  "parallel (options this) = Some True \<Longrightarrow>
     notifyObserverGroup_at takes this g event now =
       promise_all_at now (map (\<lambda>b. (now + takes b event, notifyObserver this b event)) (bindings g))"
  by (simp add: notifyObserverGroup_at_def notifyMembers_at_parallel)

text \<open>The clock changes no result: in both modes the timed call settles as the call does.\<close>

lemma notifyMembers_at_all_ok:
  "parallel (options this) \<noteq> Some True \<Longrightarrow>
   (\<forall>b \<in> set bs. notifyObserver this b event = Inr ()) \<Longrightarrow>
     fst (notifyMembers_at takes this event bs notifiers now) = Inr notifiers"
  by (induction bs arbitrary: notifiers now) simp_all

lemma notifyMembers_at_first_failure:
  "parallel (options this) \<noteq> Some True \<Longrightarrow>
   (\<forall>x \<in> set pre. notifyObserver this x event = Inr ()) \<Longrightarrow>
   notifyObserver this b event = Inl e \<Longrightarrow>
     fst (notifyMembers_at takes this event (pre @ b # rest) notifiers now) = Inl e"
  by (induction pre arbitrary: notifiers now) simp_all

lemma notifyObserverGroup_at_result:
  "\<exists>first. snd (notifyObserverGroup_at takes this g event now) =
     fst (notifyObserverGroup first this g event)"
proof (cases "parallel (options this) = Some True")
  case True
  let ?rs = "map (\<lambda>b. notifyObserver this b event) (bindings g)"
  let ?ts = "map (\<lambda>b. (now + takes b event, notifyObserver this b event)) (bindings g)"
  show ?thesis
  proof (cases "\<forall>s \<in> set ?ts. snd s = Inr ()")
    case ok: True
    then have "\<forall>r \<in> set ?rs. r = Inr ()" by auto
    then have "promise_all hd ?rs = Inr ()" by (simp add: promise_all_ok)
    with ok True show ?thesis
      by (auto simp: notifyObserverGroup_at_parallel notifyObserverGroup_parallel
          promise_all_at_fulfilled intro!: exI [of _ hd])
  next
    case nok: False
    from promise_all_at_rejected [OF nok, of now] obtain t e where
      v: "promise_all_at now ?ts = (t, Inl e)" by blast
    from nok have "\<not> (\<forall>r \<in> set ?rs. r = Inr ())" by auto
    then have "promise_all (\<lambda>es. e) ?rs \<noteq> Inr ()" by (simp add: promise_all_ok)
    from promise_all_rejects [OF this] have "promise_all (\<lambda>es. e) ?rs = Inl e" by simp
    with v True show ?thesis
      by (auto simp: notifyObserverGroup_at_parallel notifyObserverGroup_parallel
          intro!: exI [of _ "\<lambda>es. e"])
  qed
next
  case False
  show ?thesis
  proof (cases "\<forall>b \<in> set (bindings g). notifyObserver this b event = Inr ()")
    case True
    from notifyMembers_at_all_ok [OF False True, of takes "[]" now]
    obtain t where "notifyMembers_at takes this event (bindings g) [] now = (Inr [], t)"
      by (cases "notifyMembers_at takes this event (bindings g) [] now") auto
    with False True show ?thesis
      by (simp add: notifyObserverGroup_at_def notifyObserverGroup_all_ok)
  next
    case nok: False
    from first_failing_member [OF nok] obtain pre b rest e where
      split: "bindings g = pre @ b # rest"
      and pre: "\<forall>x \<in> set pre. notifyObserver this x event = Inr ()"
      and b: "notifyObserver this b event = Inl e" by blast
    from notifyMembers_at_first_failure [OF False pre b, of takes rest "[]" now]
    obtain t where "notifyMembers_at takes this event (bindings g) [] now = (Inl e, t)"
      unfolding split by (cases "notifyMembers_at takes this event (pre @ b # rest) [] now") auto
    with notifyObserverGroup_first_failure [OF False split pre b] show ?thesis
      by (simp add: notifyObserverGroup_at_def)
  qed
qed

lemma ex_racing_at:
  "notifyObserverGroup_at ex_takes ex_racing_registry ex_racing_group ''start'' 0 = (5, Inl 1)"
  by (simp add: notifyObserverGroup_at_def promise_all_at_def notifyObserver_def invokeObserver_def
      ex_racing_registry_def ex_racing_group_def ex_takes_def ex_observer_def)

text \<open>
  Claim C3, as the code has it. In parallel mode \<open>notifyObserverGroup\<close> notifies every
  member of the group, whether or not another member fails (nothing is cancelled). When
  one or more members fail, the returned promise rejects at the time of the earliest
  failure, with the error of that failure: the error surfaces then, and not only after
  the other members have settled. When no member fails, the promise is fulfilled when
  the last member has settled.
\<close>

theorem parallel_group_rejects_at_first_rejection:
  assumes par: "parallel (options this) = Some True"
  shows "snd (notifyObserverGroup first this g event) = map key (bindings g) \<and>
     ((\<exists>b \<in> set (bindings g). failure_of this b event \<noteq> None) \<longrightarrow>
        (\<exists>b \<in> set (bindings g). \<exists>e. failure_of this b event = Some e \<and>
           notifyObserverGroup_at takes this g event now = (now + takes b event, Inl e) \<and>
           (\<forall>b' \<in> set (bindings g). failure_of this b' event \<noteq> None \<longrightarrow>
              takes b event \<le> takes b' event))) \<and>
     ((\<forall>b \<in> set (bindings g). failure_of this b event = None) \<longrightarrow>
        snd (notifyObserverGroup_at takes this g event now) = Inr () \<and>
        (\<forall>b \<in> set (bindings g). now + takes b event \<le> fst (notifyObserverGroup_at takes this g event now)))"
proof -
  let ?ts = "map (\<lambda>b. (now + takes b event, notifyObserver this b event)) (bindings g)"
  have started: "snd (notifyObserverGroup first this g event) = map key (bindings g)"
    using par by (simp add: notifyObserverGroup_parallel)
  have at: "notifyObserverGroup_at takes this g event now = promise_all_at now ?ts"
    using par by (rule notifyObserverGroup_at_parallel)
  have rejected: "\<exists>b \<in> set (bindings g). \<exists>e. failure_of this b event = Some e \<and>
      notifyObserverGroup_at takes this g event now = (now + takes b event, Inl e) \<and>
      (\<forall>b' \<in> set (bindings g). failure_of this b' event \<noteq> None \<longrightarrow> takes b event \<le> takes b' event)"
    if "\<exists>b \<in> set (bindings g). failure_of this b event \<noteq> None"
  proof -
    from that have "\<not> (\<forall>s \<in> set ?ts. snd s = Inr ())"
      by (auto simp: notifyObserver_ok_iff)
    from promise_all_at_rejected [OF this, of now] obtain t e where
      mem: "(t, Inl e) \<in> set ?ts" and val: "promise_all_at now ?ts = (t, Inl e)"
      and least: "\<And>t' e'. (t', Inl e') \<in> set ?ts \<Longrightarrow> t \<le> t'" by blast
    from mem obtain b where b: "b \<in> set (bindings g)" "t = now + takes b event"
      "notifyObserver this b event = Inl e" by auto
    have "takes b event \<le> takes b' event"
      if b': "b' \<in> set (bindings g)" "failure_of this b' event \<noteq> None" for b'
    proof -
      from b'(2) obtain e' where "failure_of this b' event = Some e'" by auto
      then have "notifyObserver this b' event = Inl e'" by (simp add: notifyObserver_fails_iff)
      with b'(1) have "(now + takes b' event, Inl e') \<in> set ?ts" by force
      from least [OF this] b(2) show ?thesis by simp
    qed
    with b val at show ?thesis by (auto simp: notifyObserver_fails_iff)
  qed
  have fulfilled: "snd (notifyObserverGroup_at takes this g event now) = Inr () \<and>
      (\<forall>b \<in> set (bindings g). now + takes b event \<le> fst (notifyObserverGroup_at takes this g event now))"
    if "\<forall>b \<in> set (bindings g). failure_of this b event = None"
  proof -
    from that have "\<forall>s \<in> set ?ts. snd s = Inr ()" by (auto simp: notifyObserver_ok_iff)
    then have val: "promise_all_at now ?ts = (foldr max (map fst ?ts) now, Inr ())"
      by (rule promise_all_at_fulfilled)
    have "now + takes b event \<le> foldr max (map fst ?ts) now" if "b \<in> set (bindings g)" for b
      using that by (intro foldr_max_ge) force
    with val at show ?thesis by simp
  qed
  from started rejected fulfilled show ?thesis by blast
qed

theorem parallel_group_rejects_at_first_rejection_witness:
  "parallel (options ex_racing_registry) = Some True \<and>
   snd (notifyObserverGroup hd ex_racing_registry ex_racing_group ''start'') = [''T1'', ''T2''] \<and>
   notifyObserverGroup_at ex_takes ex_racing_registry ex_racing_group ''start'' 0 = (5, Inl 1) \<and>
   (\<exists>b \<in> set (bindings ex_racing_group). \<exists>e.
      failure_of ex_racing_registry b ''start'' = Some e \<and>
      notifyObserverGroup_at ex_takes ex_racing_registry ex_racing_group ''start'' 0 =
        (0 + ex_takes b ''start'', Inl e))"
proof -
  have par: "parallel (options ex_racing_registry) = Some True"
    by (simp add: ex_racing_registry_def)
  have f: "\<exists>b \<in> set (bindings ex_racing_group). failure_of ex_racing_registry b ''start'' \<noteq> None"
    by (simp add: failure_of_def ex_racing_registry_def ex_racing_group_def ex_observer_def)
  note t = parallel_group_rejects_at_first_rejection [OF par, of hd ex_racing_group "''start''" ex_takes 0]
  from t have s: "snd (notifyObserverGroup hd ex_racing_registry ex_racing_group ''start'') =
      map key (bindings ex_racing_group)"
    by blast
  from t f have r: "\<exists>b \<in> set (bindings ex_racing_group). \<exists>e.
      failure_of ex_racing_registry b ''start'' = Some e \<and>
      notifyObserverGroup_at ex_takes ex_racing_registry ex_racing_group ''start'' 0 =
        (0 + ex_takes b ''start'', Inl e)"
    by blast
  from s have s': "snd (notifyObserverGroup hd ex_racing_registry ex_racing_group ''start'') = [''T1'', ''T2'']"
    by (simp add: ex_racing_group_def ex_observer_def)
  from par s' ex_racing_at r show ?thesis by blast
qed

text \<open>
  The claim as it is stated fails: \<open>T1\<close> rejects after \<open>5\<close> ticks and \<open>T2\<close>
  resolves after \<open>40\<close>; the error surfaces at tick \<open>5\<close>, before the invocation of
  \<open>T2\<close> is complete.
\<close>

theorem parallel_group_rejects_at_first_rejection_counterexample:
  "parallel (options ex_racing_registry) = Some True \<and>
   failure_of ex_racing_registry (ex_observer ''T1'' []) ''start'' = Some 1 \<and>
   failure_of ex_racing_registry (ex_observer ''T2'' []) ''start'' = None \<and>
   notifyObserverGroup_at ex_takes ex_racing_registry ex_racing_group ''start'' 0 = (5, Inl 1) \<and>
   0 + ex_takes (ex_observer ''T2'' []) ''start'' = 40 \<and>
   fst (notifyObserverGroup_at ex_takes ex_racing_registry ex_racing_group ''start'' 0) <
     0 + ex_takes (ex_observer ''T2'' []) ''start''"
  by (simp add: ex_racing_at)
    (simp add: failure_of_def ex_racing_registry_def ex_takes_def ex_observer_def)

section \<open>The router\<close>

lemma mount_binding_path:
  "path (mount_binding bs middleware b) =
     (if tagMap b ''path'' = None \<or> tagMap b ''path'' = Some '''' then None else tagMap b ''path'')"
  by (auto simp: mount_binding_def falsy_def Let_def split: option.splits)

text \<open>
  Claim C9. \<open>createExpressRouter\<close> leaves the registry as it was, so a second call on the
  unchanged registry returns the same as the first. When the handlers resolve, the
  result has one phase router for every phase, in the order of the sorted phases, and in
  each phase router the mounts of the bindings of that phase in registration order, each
  scoped to its \<open>path\<close> tag when the tag is there and not empty; when the handlers do
  not resolve, the call fails with their error.
\<close>

theorem createExpressRouter_idempotent:
  "snd (createExpressRouter this) = this \<and>
   fst (createExpressRouter (snd (createExpressRouter this))) = fst (createExpressRouter this) \<and>
   (\<forall>middleware. view_values (middlewareView this) = Inr middleware \<longrightarrow>
      fst (createExpressRouter this) =
        Inr (map (\<lambda>p. map (mount_binding (view_bindings (middlewareView this)) middleware)
                        (filter (\<lambda>b. getMiddlewarePhase b = phase p) (view_bindings (middlewareView this))))
               (getMiddlewarePhasesByOrder this))) \<and>
   (\<forall>e. view_values (middlewareView this) = Inl e \<longrightarrow> fst (createExpressRouter this) = Inl e) \<and>
   (\<forall>bs middleware b. path (mount_binding bs middleware b) =
      (if tagMap b ''path'' = None \<or> tagMap b ''path'' = Some '''' then None else tagMap b ''path''))"
proof -
  have same: "snd (createExpressRouter this) = this"
    by (simp add: createExpressRouter_def Let_def split: sum.splits)
  have routers: "fst (createExpressRouter this) =
        Inr (map (\<lambda>p. map (mount_binding (view_bindings (middlewareView this)) middleware)
                        (filter (\<lambda>b. getMiddlewarePhase b = phase p) (view_bindings (middlewareView this))))
               (getMiddlewarePhasesByOrder this))"
    if v: "view_values (middlewareView this) = Inr middleware" for middleware
  proof -
    have "map (\<lambda>p. map (mount_binding (view_bindings (middlewareView this)) middleware) (phase_bindings p))
        (getMiddlewarePhasesByOrder this) =
      map (\<lambda>p. map (mount_binding (view_bindings (middlewareView this)) middleware)
                        (filter (\<lambda>b. getMiddlewarePhase b = phase p) (view_bindings (middlewareView this))))
        (getMiddlewarePhasesByOrder this)"
      by (rule map_cong [OF refl]) (simp add: getMiddlewarePhasesByOrder_def phase_members)
    with v show ?thesis by (simp add: createExpressRouter_def Let_def)
  qed
  have rejects: "fst (createExpressRouter this) = Inl e"
    if "view_values (middlewareView this) = Inl e" for e
    using that by (simp add: createExpressRouter_def Let_def)
  have idem: "fst (createExpressRouter (snd (createExpressRouter this))) = fst (createExpressRouter this)"
    by (simp only: same)
  have scoped: "\<forall>bs middleware b. path (mount_binding bs middleware b) =
      (if tagMap b ''path'' = None \<or> tagMap b ''path'' = Some '''' then None else tagMap b ''path'')"
    using mount_binding_path by blast
  from same idem routers rejects scoped show ?thesis by blast
qed

theorem createExpressRouter_idempotent_witness:
  "fst (createExpressRouter ex_middleware_registry) =
     Inr [[\<lparr>path = None, handler = Some 3\<rparr>],
          [\<lparr>path = Some ''/api'', handler = Some 1\<rparr>, \<lparr>path = None, handler = Some 2\<rparr>]] \<and>
   fst (createExpressRouter (snd (createExpressRouter ex_middleware_registry))) =
     fst (createExpressRouter ex_middleware_registry)"
proof -
  have v: "view_values (middlewareView ex_middleware_registry) = Inr [1, 2, 3]"
    by (simp add: ex_middleware_registry_def ex_view_def)
  have b: "view_bindings (middlewareView ex_middleware_registry) = ex_middlewares"
    by (simp add: ex_middleware_registry_def ex_view_def)
  have o: "getMiddlewarePhasesByOrder ex_middleware_registry =
     [\<lparr>phase = ''log'', phase_bindings = [ex_middleware ''M3'' [(''phase'', ''log'')]]\<rparr>,
      \<lparr>phase = ''auth'', phase_bindings =
         [ex_middleware ''M1'' [(''phase'', ''auth''), (''path'', ''/api'')],
          ex_middleware ''M2'' [(''phase'', ''auth'')]]\<rparr>]"
    by (simp add: getMiddlewarePhasesByOrder_def b ex_phases)
  note idem = createExpressRouter_idempotent [of ex_middleware_registry]
  from idem v have "fst (createExpressRouter ex_middleware_registry) =
      Inr (map (\<lambda>p. map (mount_binding (view_bindings (middlewareView ex_middleware_registry)) [1, 2, 3])
                      (filter (\<lambda>b. getMiddlewarePhase b = phase p)
                         (view_bindings (middlewareView ex_middleware_registry))))
             (getMiddlewarePhasesByOrder ex_middleware_registry))"
    by blast
  then have r: "fst (createExpressRouter ex_middleware_registry) =
     Inr [[\<lparr>path = None, handler = Some 3\<rparr>],
          [\<lparr>path = Some ''/api'', handler = Some 1\<rparr>, \<lparr>path = None, handler = Some 2\<rparr>]]"
    unfolding b o
    by (simp add: getMiddlewarePhase_def or_empty_def
        ex_middlewares_def ex_middleware_def mount_binding_def falsy_def js_nth_def)
  from idem have "fst (createExpressRouter (snd (createExpressRouter ex_middleware_registry))) =
     fst (createExpressRouter ex_middleware_registry)"
    by blast
  with r show ?thesis by blast
qed

end
